theory Spec2Isabelle
  imports Complex_Main
begin

section \<open>Shared data model\<close>

text \<open>
  The percolation code works on numpy float vectors and integer translation
  vectors of length three. Both are triples here. Floating-point numbers are
  taken as exact rationals: every concrete lattice below uses dyadic
  coordinates, for which the float arithmetic of the source is exact, and the
  general theorems do not depend on any rounding.
\<close>

type_synonym vec3 = "rat \<times> rat \<times> rat"
type_synonym ivec3 = "int \<times> int \<times> int"

fun vadd :: "vec3 \<Rightarrow> vec3 \<Rightarrow> vec3" where
  "vadd (a, b, c) (x, y, z) = (a + x, b + y, c + z)"

fun vsub :: "vec3 \<Rightarrow> vec3 \<Rightarrow> vec3" where
  "vsub (a, b, c) (x, y, z) = (a - x, b - y, c - z)"

fun ivadd :: "ivec3 \<Rightarrow> ivec3 \<Rightarrow> ivec3" where
  "ivadd (a, b, c) (x, y, z) = (a + x, b + y, c + z)"

fun ivneg :: "ivec3 \<Rightarrow> ivec3" where
  "ivneg (a, b, c) = (- a, - b, - c)"

fun of_ivec :: "ivec3 \<Rightarrow> vec3" where
  "of_ivec (a, b, c) = (of_int a, of_int b, of_int c)"

text \<open>\<open>np.sum\<close> of an integer triple.\<close>

fun isum3 :: "ivec3 \<Rightarrow> int" where
  "isum3 (a, b, c) = a + b + c"

text \<open>Python's \<open>list.index\<close>: the first position of a value, or \<open>ValueError\<close> (here \<open>None\<close>).\<close>

fun index_py :: "'a list \<Rightarrow> 'a \<Rightarrow> nat option" where
  "index_py [] y = None"
| "index_py (x # xs) y = (if x = y then Some 0 else map_option Suc (index_py xs y))"

datatype error = ValueError | IndexError | AttributeError | ZeroDivisionError | NonTermination

text \<open>
  The \<open>Lattice\<close> object the percolator is built from. Its class is not part of
  the sources at hand; the percolator reads only these attributes of it.
\<close>

record lattice =
  nsites :: nat
  coo :: "vec3 list"
  nn :: "nat list list"
  T_vectors :: "ivec3 list list"

section \<open>The percolator (percolator.py)\<close>

text \<open>
  The instance attributes of \<open>Percolator\<close>. \<open>num_common\<close> is the closure variable
  of the predicate installed by \<open>set_special_percolation_rule\<close> (\<open>None\<close> while the
  default \<open>_check_special\<close> method is in place). \<open>percolating\<close> stands for the
  attribute \<open>_percolating\<close>: \<open>None\<close> means that the attribute has never been
  assigned.
\<close>

record percolator =
  special :: bool
  num_common :: "int option"
  bonds :: "bool list list"
  nbonds_tot :: int
  cluster :: "int list"
  nclusters :: int
  nbonds :: int
  npercolating :: int
  nclus_percol :: int
  npaths :: int
  first :: "int list"
  size_c :: "int list"
  is_wrapping :: "ivec3 list"
  largest :: int
  next_s :: "int list"
  vec :: "vec3 list"
  occupied :: "nat list"
  vacant :: "nat list"
  percolating :: "nat list option"

text \<open>\<open>reset\<close>: every dynamic attribute is set anew; the bond arrays keep their lengths.\<close>

definition reset :: "lattice \<Rightarrow> percolator \<Rightarrow> percolator" where
  "reset L s = s\<lparr>
     cluster := replicate (nsites L) (- 1),
     nclusters := 0, nbonds := 0, npercolating := 0, nclus_percol := 0, npaths := 0,
     first := [], size_c := [], is_wrapping := [],
     largest := - 1,
     next_s := replicate (nsites L) (- 1),
     vec := replicate (nsites L) (0, 0, 0),
     occupied := [],
     vacant := [0 ..< nsites L],
     bonds := map (\<lambda>b. replicate (length b) False) (bonds s)\<rparr>"

text \<open>
  \<open>__init__\<close>: one bond flag per distinct neighbour of a site, the bond total halved
  with Python 2 integer division, then \<open>reset\<close>.
\<close>

definition init :: "lattice \<Rightarrow> percolator" where
  "init L = reset L \<lparr>
     special = False, num_common = None,
     bonds = map (\<lambda>i. replicate (card (set (nn L ! i))) False) [0 ..< nsites L],
     nbonds_tot = (\<Sum>i \<leftarrow> [0 ..< nsites L]. int (card (set (nn L ! i)))) div 2,
     cluster = [], nclusters = 0, nbonds = 0, npercolating = 0, nclus_percol = 0,
     npaths = 0, first = [], size_c = [], is_wrapping = [], largest = - 1,
     next_s = [], vec = [], occupied = [], vacant = [], percolating = None\<rparr>"

text \<open>The property \<open>num_percolating\<close>: \<open>len(self._percolating)\<close>.\<close>

definition num_percolating :: "percolator \<Rightarrow> error + nat" where
  "num_percolating s =
     (case percolating s of None \<Rightarrow> Inl AttributeError | Some xs \<Rightarrow> Inr (length xs))"

definition num_vacant :: "percolator \<Rightarrow> nat" where
  "num_vacant s = length (vacant s)"

text \<open>
  \<open>get_common_neighbors\<close>: the intersection of the two neighbour sets, as a list
  without repetitions (Python leaves its order open).
\<close>

definition get_common_neighbors :: "lattice \<Rightarrow> nat \<Rightarrow> nat \<Rightarrow> nat list" where
  "get_common_neighbors L site1 site2 =
     filter (\<lambda>n. n \<in> set (nn L ! site2)) (remdups (nn L ! site1))"

text \<open>The loop of \<open>new_special\<close>; falling off the end returns the initial \<open>False\<close>.\<close>

fun new_special_loop :: "int list \<Rightarrow> int \<Rightarrow> int \<Rightarrow> nat list \<Rightarrow> bool" where
  "new_special_loop cl k occ [] = False"
| "new_special_loop cl k occ (nb # nbs) =
     (let occ' = (if cl ! nb \<ge> 0 then occ + 1 else occ)
      in if occ' \<ge> k then True else new_special_loop cl k occ' nbs)"

definition new_special :: "lattice \<Rightarrow> int \<Rightarrow> percolator \<Rightarrow> nat \<Rightarrow> nat \<Rightarrow> bool" where
  "new_special L k s site1 site2 =
     new_special_loop (cluster s) k 0 (get_common_neighbors L site1 site2)"

definition set_special_percolation_rule :: "int \<Rightarrow> percolator \<Rightarrow> percolator" where
  "set_special_percolation_rule k s = s\<lparr>special := True, num_common := Some k\<rparr>"

definition check_special :: "lattice \<Rightarrow> percolator \<Rightarrow> nat \<Rightarrow> nat \<Rightarrow> bool" where
  "check_special L s site1 site2 =
     (case num_common s of None \<Rightarrow> True | Some k \<Rightarrow> new_special L k s site1 site2)"

subsection \<open>\<open>_merge_clusters\<close>\<close>

text \<open>The bond bookkeeping at the head of \<open>_merge_clusters\<close>.\<close>

definition remember_bonds :: "lattice \<Rightarrow> percolator \<Rightarrow> nat \<Rightarrow> nat \<Rightarrow> error + percolator" where
  "remember_bonds L s site1 site2 =
     (case index_py (nn L ! site1) site2 of
        None \<Rightarrow> Inl ValueError
      | Some nb1 \<Rightarrow>
          if length (bonds s ! site1) \<le> nb1 then Inl IndexError
          else if bonds s ! site1 ! nb1 then Inr s
          else (case index_py (nn L ! site2) site1 of
                  None \<Rightarrow> Inl ValueError
                | Some nb2 \<Rightarrow>
                    let b1 = (bonds s)[site1 := (bonds s ! site1)[nb1 := True]]
                    in if length (b1 ! site2) \<le> nb2 then Inl IndexError
                       else Inr (s\<lparr>bonds := b1[site2 := (b1 ! site2)[nb2 := True]],
                                   nbonds := nbonds s + 1\<rparr>)))"

text \<open>The vector \<open>vec\<close> of \<open>_merge_clusters\<close>.\<close>

definition merge_vec :: "lattice \<Rightarrow> percolator \<Rightarrow> nat \<Rightarrow> nat \<Rightarrow> ivec3 \<Rightarrow> vec3" where
  "merge_vec L s site1 site2 T2 =
     (let v_12 = vsub (vadd (coo L ! site2) (of_ivec T2)) (coo L ! site1)
      in vsub (vsub (vec s ! site1) v_12) (vec s ! site2))"

fun wrap_incr :: "vec3 \<Rightarrow> ivec3" where
  "wrap_incr (x, y, z) =
     ((if \<bar>x\<bar> > 1 / 2 then 1 else 0), (if \<bar>y\<bar> > 1 / 2 then 1 else 0),
      (if \<bar>z\<bar> > 1 / 2 then 1 else 0))"

text \<open>The branch \<open>cluster1 == cluster2\<close>.\<close>

definition merge_same :: "percolator \<Rightarrow> nat \<Rightarrow> vec3 \<Rightarrow> percolator" where
  "merge_same s c1 d =
     (let wrapping1 = isum3 (is_wrapping s ! c1);
          inc = wrap_incr d;
          w' = ivadd (is_wrapping s ! c1) inc;
          s1 = s\<lparr>is_wrapping := (is_wrapping s)[c1 := w'], npaths := npaths s + isum3 inc\<rparr>
      in if wrapping1 = 0 \<and> isum3 w' > 0
         then s1\<lparr>npercolating := npercolating s1 + size_c s1 ! c1,
                 nclus_percol := nclus_percol s1 + 1\<rparr>
         else s1)"

text \<open>
  The walk along the \<open>_next\<close> chain of the second cluster: every site met gets
  \<open>vec\<close> added and the first cluster's ID; the walk returns the last site. It
  ends only when a negative \<open>_next\<close> entry is met.
\<close>

partial_function (option) walk_cluster ::
  "int list \<Rightarrow> vec3 \<Rightarrow> int \<Rightarrow> vec3 list \<Rightarrow> int list \<Rightarrow> nat \<Rightarrow> (vec3 list \<times> int list \<times> nat) option"
where
  "walk_cluster nx d c1 v cl i =
     (if nx ! i \<ge> 0
      then walk_cluster nx d c1 (v[i := vadd (v ! i) d]) (cl[i := c1]) (nat (nx ! i))
      else Some (v[i := vadd (v ! i) d], cl[i := c1], i))"

declare walk_cluster.simps [code]

text \<open>The counters of the branch \<open>cluster1 != cluster2\<close>.\<close>

definition merge_counters :: "percolator \<Rightarrow> nat \<Rightarrow> nat \<Rightarrow> percolator" where
  "merge_counters s c1 c2 =
     (let wrapping1 = isum3 (is_wrapping s ! c1);
          wrapping2 = isum3 (is_wrapping s ! c2)
      in if wrapping1 > 0 \<and> wrapping2 = 0
         then s\<lparr>npercolating := npercolating s + size_c s ! c2\<rparr>
         else if wrapping1 = 0 \<and> wrapping2 > 0
         then s\<lparr>npercolating := npercolating s + size_c s ! c1\<rparr>
         else if wrapping1 > 0 \<and> wrapping2 > 0
         then s\<lparr>nclus_percol := nclus_percol s - 1\<rparr>
         else s)"

text \<open>The last block: the second cluster is deleted when it is the last of the list, else emptied.\<close>

definition retire :: "percolator \<Rightarrow> nat \<Rightarrow> percolator" where
  "retire s c2 =
     (if length (first s) = c2 + 1
      then s\<lparr>first := butlast (first s), size_c := butlast (size_c s),
             is_wrapping := butlast (is_wrapping s)\<rparr>
      else s\<lparr>first := (first s)[c2 := - 1], size_c := (size_c s)[c2 := 0],
             is_wrapping := (is_wrapping s)[c2 := (0, 0, 0)]\<rparr>)"

text \<open>
  After the walk (which ended at site \<open>i\<close>): the second chain is inserted behind
  the head of the first, sizes and wrapping counters are added up, the largest
  cluster is updated.
\<close>

definition merge_update ::
  "percolator \<Rightarrow> nat \<Rightarrow> nat \<Rightarrow> vec3 list \<Rightarrow> int list \<Rightarrow> nat \<Rightarrow> percolator"
where
  "merge_update s c1 c2 v' cl' i =
     (let j = nat (first s ! c1);
          nx1 = (next_s s)[i := next_s s ! j];
          nx2 = nx1[j := first s ! c2];
          sz = (size_c s)[c1 := size_c s ! c1 + size_c s ! c2];
          lg = (if sz ! c1 > sz ! nat (largest s) then int c1 else largest s);
          wr = (is_wrapping s)[c1 := ivadd (is_wrapping s ! c1) (is_wrapping s ! c2)]
      in s\<lparr>vec := v', cluster := cl', next_s := nx2, size_c := sz,
            largest := lg, is_wrapping := wr, nclusters := nclusters s - 1\<rparr>)"

text \<open>Everything after the counters, for two different clusters.\<close>

definition merge_diff :: "percolator \<Rightarrow> nat \<Rightarrow> nat \<Rightarrow> vec3 \<Rightarrow> error + percolator" where
  "merge_diff s c1 c2 d =
     (case walk_cluster (next_s s) d (int c1) (vec s) (cluster s) (nat (first s ! c2)) of
        None \<Rightarrow> Inl NonTermination
      | Some (v', cl', i) \<Rightarrow> Inr (retire (merge_update s c1 c2 v' cl' i) c2))"

definition merge_clusters ::
  "lattice \<Rightarrow> percolator \<Rightarrow> int \<Rightarrow> nat \<Rightarrow> int \<Rightarrow> nat \<Rightarrow> ivec3 \<Rightarrow> error + percolator"
where
  "merge_clusters L s cluster1 site1 cluster2 site2 T2 =
     (if \<not> check_special L s site1 site2 then Inr s
      else case remember_bonds L s site1 site2 of
             Inl e \<Rightarrow> Inl e
           | Inr s1 \<Rightarrow>
               let d = merge_vec L s1 site1 site2 T2
               in if cluster1 = cluster2 then Inr (merge_same s1 (nat cluster1) d)
                  else merge_diff (merge_counters s1 (nat cluster1) (nat cluster2))
                         (nat cluster1) (nat cluster2) d)"

subsection \<open>\<open>add_percolating_site\<close>\<close>

text \<open>The inner loop over the neighbours of a neighbour (special rules only).\<close>

fun next_nearest_loop :: "lattice \<Rightarrow> nat \<Rightarrow> nat list \<Rightarrow> percolator \<Rightarrow> error + percolator" where
  "next_nearest_loop L nb [] s = Inr s"
| "next_nearest_loop L nb (j # js) s =
     (let nb2 = nn L ! nb ! j; cl2 = cluster s ! nb2
      in if cl2 \<ge> 0
         then (case merge_clusters L s cl2 nb2 (cluster s ! nb) nb (ivneg (T_vectors L ! nb ! j)) of
                 Inl e \<Rightarrow> Inl e
               | Inr s' \<Rightarrow> next_nearest_loop L nb js s')
         else next_nearest_loop L nb js s)"

text \<open>The loop over the neighbour slots of the new site.\<close>

fun neighbor_loop :: "lattice \<Rightarrow> nat \<Rightarrow> nat list \<Rightarrow> percolator \<Rightarrow> error + percolator" where
  "neighbor_loop L site [] s = Inr s"
| "neighbor_loop L site (i # is) s =
     (let nb = nn L ! site ! i; cl = cluster s ! nb
      in if cl \<ge> 0
         then (case merge_clusters L s cl nb (cluster s ! site) site (ivneg (T_vectors L ! site ! i)) of
                 Inl e \<Rightarrow> Inl e
               | Inr s' \<Rightarrow>
                   if \<not> special s' then neighbor_loop L site is s'
                   else (case next_nearest_loop L nb [0 ..< length (nn L ! nb)] s' of
                           Inl e \<Rightarrow> Inl e
                         | Inr s'' \<Rightarrow> neighbor_loop L site is s''))
         else neighbor_loop L site is s)"

text \<open>The new one-site cluster that \<open>add_percolating_site\<close> creates before the loop.\<close>

definition new_cluster :: "percolator \<Rightarrow> nat \<Rightarrow> nat \<Rightarrow> percolator" where
  "new_cluster s sel site =
     (let cid = int (length (first s))
      in s\<lparr>vacant := take sel (vacant s) @ drop (Suc sel) (vacant s),
           occupied := occupied s @ [site],
           first := first s @ [int site],
           size_c := size_c s @ [1],
           is_wrapping := is_wrapping s @ [(0, 0, 0)],
           cluster := (cluster s)[site := cid],
           nclusters := nclusters s + 1,
           vec := (vec s)[site := (0, 0, 0)],
           largest := (if largest s < 0 then cid else largest s)\<rparr>)"

text \<open>
  \<open>add_percolating_site(site)\<close>. The argument is \<open>None\<close> or an integer; \<open>rnd\<close> is the
  entropy behind \<open>random_integers(0, num_vacant - 1)\<close>, whose draw is \<open>rnd mod num_vacant\<close>,
  so that every admissible draw arises. The test \<open>if not site\<close> holds for \<open>None\<close> and for 0.
\<close>

definition add_percolating_site ::
  "lattice \<Rightarrow> int option \<Rightarrow> nat \<Rightarrow> percolator \<Rightarrow> error + percolator"
where
  "add_percolating_site L site rnd s =
     (if num_vacant s \<le> 0 then Inr s
      else if site = None \<or> site = Some 0
      then (let sel = rnd mod num_vacant s; st = vacant s ! sel
            in neighbor_loop L st [0 ..< length (nn L ! st)] (new_cluster s sel st))
      else (case index_py (map int (vacant s)) (the site) of
              None \<Rightarrow> Inl ValueError
            | Some sel \<Rightarrow>
                let st = nat (the site)
                in neighbor_loop L st [0 ..< length (nn L ! st)] (new_cluster s sel st)))"

text \<open>A sequence of additions; the first exception ends it.\<close>

fun run :: "lattice \<Rightarrow> (int option \<times> nat) list \<Rightarrow> percolator \<Rightarrow> error + percolator" where
  "run L [] s = Inr s"
| "run L ((site, rnd) # ops) s =
     (case add_percolating_site L site rnd s of Inl e \<Rightarrow> Inl e | Inr s' \<Rightarrow> run L ops s')"

text \<open>
  The states a run starts from: a fresh percolator, optionally with the
  common-neighbour rule installed, after \<open>reset\<close>.
\<close>

definition start :: "lattice \<Rightarrow> int option \<Rightarrow> percolator" where
  "start L r =
     reset L (case r of None \<Rightarrow> init L | Some k \<Rightarrow> set_special_percolation_rule k (init L))"

subsection \<open>\<open>percolation_point\<close>\<close>

text \<open>
  The driver either returns, or an exception leaves it, or it ends the process
  with \<open>sys.exit\<close> after the message "All sites occupied, but no wrapping
  cluster" and after handing the largest cluster of the final state to
  \<open>save_cluster\<close>. The file written there is outside of this model; the exit
  carries the state it is written from.
\<close>

datatype exit = Raised error | NeverPercolates percolator

record pc =
  pc_site_any :: rat
  pc_site_two :: rat
  pc_site_all :: rat
  pc_bond_any :: rat
  pc_bond_two :: rat
  pc_bond_all :: rat

text \<open>The six accumulators at the start of \<open>percolation_point\<close>.\<close>

definition pc0 :: pc where
  "pc0 = \<lparr>pc_site_any = 0, pc_site_two = 0, pc_site_all = 0,
          pc_bond_any = 0, pc_bond_two = 0, pc_bond_all = 0\<rparr>"

text \<open>\<open>np.sum(np.where(wrapping>0,1,0))\<close> and \<open>np.all(wrapping>0)\<close>.\<close>

fun count_pos :: "ivec3 \<Rightarrow> nat" where
  "count_pos (a, b, c) = (if a > 0 then 1 else 0) + (if b > 0 then 1 else 0) + (if c > 0 then 1 else 0)"

fun all_pos :: "ivec3 \<Rightarrow> bool" where
  "all_pos (a, b, c) = (a > 0 \<and> b > 0 \<and> c > 0)"

text \<open>
  The loop \<open>for n in xrange(self._nsites)\<close> of one sample; \<open>rnd n\<close> is the
  entropy of the \<open>n\<close>-th random choice.
\<close>

fun pp_steps ::
  "lattice \<Rightarrow> rat \<Rightarrow> rat \<Rightarrow> (nat \<Rightarrow> nat) \<Rightarrow> nat list \<Rightarrow> bool \<Rightarrow> bool \<Rightarrow> pc \<Rightarrow> percolator
     \<Rightarrow> exit + pc \<times> percolator"
where
  "pp_steps L w1 w2 rnd [] done_any done_two acc s = Inr (acc, s)"
| "pp_steps L w1 w2 rnd (n # ns) done_any done_two acc s =
     (case add_percolating_site L None (rnd n) s of
        Inl e \<Rightarrow> Inl (Raised e)
      | Inr s1 \<Rightarrow>
          let wrapping = is_wrapping s1 ! nat (largest s1);
              hit_any = (isum3 wrapping > 0 \<and> \<not> done_any);
              acc1 = (if hit_any
                      then acc\<lparr>pc_site_any := pc_site_any acc + w1 * of_nat (n + 1),
                               pc_bond_any := pc_bond_any acc + w2 * of_int (nbonds s1)\<rparr>
                      else acc);
              hit_two = (count_pos wrapping \<ge> 2 \<and> \<not> done_two);
              acc2 = (if hit_two
                      then acc1\<lparr>pc_site_two := pc_site_two acc1 + w1 * of_nat (n + 1),
                                pc_bond_two := pc_bond_two acc1 + w2 * of_int (nbonds s1)\<rparr>
                      else acc1)
          in if all_pos wrapping
             then Inr (acc2\<lparr>pc_site_all := pc_site_all acc2 + w1 * of_nat (n + 1),
                            pc_bond_all := pc_bond_all acc2 + w2 * of_int (nbonds s1)\<rparr>, s1)
             else if int n = int (nsites L) - 1 then Inl (NeverPercolates s1)
             else pp_steps L w1 w2 rnd ns (done_any \<or> hit_any) (done_two \<or> hit_two) acc2 s1)"

text \<open>The loop over the samples; \<open>rnd i\<close> is the entropy of sample \<open>i\<close>.\<close>

fun pp_samples ::
  "lattice \<Rightarrow> rat \<Rightarrow> rat \<Rightarrow> (nat \<Rightarrow> nat \<Rightarrow> nat) \<Rightarrow> nat list \<Rightarrow> pc \<Rightarrow> percolator
     \<Rightarrow> exit + pc \<times> percolator"
where
  "pp_samples L w1 w2 rnd [] acc s = Inr (acc, s)"
| "pp_samples L w1 w2 rnd (i # is) acc s =
     (case pp_steps L w1 w2 (rnd i) [0 ..< nsites L] False False acc (reset L s) of
        Inl e \<Rightarrow> Inl e
      | Inr (acc', s') \<Rightarrow> pp_samples L w1 w2 rnd is acc' s')"

definition percolation_point ::
  "lattice \<Rightarrow> nat \<Rightarrow> (nat \<Rightarrow> nat \<Rightarrow> nat) \<Rightarrow> percolator \<Rightarrow> exit + pc \<times> percolator"
where
  "percolation_point L samples rnd s =
     (if samples = 0 \<or> nsites L = 0 \<or> nbonds_tot s = 0 then Inl (Raised ZeroDivisionError)
      else pp_samples L (1 / of_nat samples / of_nat (nsites L))
             (1 / of_nat samples / of_int (nbonds_tot s)) rnd [0 ..< samples]
             pc0 s)"

subsection \<open>The binomial convolution of the estimators\<close>

text \<open>
  \<open>scipy.stats.binom.pmf(n, N, p)\<close> is the binomial probability mass function.
  Its argument check asks for \<open>0 \<le> p \<le> 1\<close>; outside of that range the value
  is \<open>nan\<close>, here \<open>None\<close>. The real numbers of this model are the exact values
  that the floating-point numbers of the code approximate.
\<close>

definition binom_pmf :: "nat \<Rightarrow> nat \<Rightarrow> real \<Rightarrow> real option" where
  "binom_pmf n N p =
     (if 0 \<le> p \<and> p \<le> 1 then Some (of_nat (N choose n) * p ^ n * (1 - p) ^ (N - n)) else None)"

text \<open>\<open>np.sum\<close>: a \<open>nan\<close> among the terms makes the sum \<open>nan\<close>.\<close>

fun np_sum :: "real option list \<Rightarrow> real option" where
  "np_sum [] = Some 0"
| "np_sum (x # xs) =
     (case x of None \<Rightarrow> None
      | Some a \<Rightarrow> (case np_sum xs of None \<Rightarrow> None | Some b \<Rightarrow> Some (a + b)))"

text \<open>
  \<open>np.sum(binom.pmf(nlist, nsites, p)*Pn)\<close> with \<open>nlist = arange(1, nsites + 1)\<close>,
  as the estimators compute it for every \<open>p\<close> of \<open>plist\<close>; \<open>Pn\<close> has one entry
  for each of the occupation counts 1 to \<open>nsites\<close>.
\<close>

definition binomial_convolution :: "nat \<Rightarrow> real \<Rightarrow> real list \<Rightarrow> real option" where
  "binomial_convolution N p Pn =
     np_sum (map2 (\<lambda>b x. map_option (\<lambda>v. v * x) b) (map (\<lambda>n. binom_pmf n N p) [1 ..< N + 1]) Pn)"

section \<open>The neighbour list (pynblist.py)\<close>

text \<open>
  The floating-point numbers of the neighbour list are taken as reals, with
  the real square root for \<open>np.sqrt\<close>. Modelled is the nearest-neighbour mode
  (no \<open>interaction_range\<close>) with the numbers of boxes given to the constructor;
  the default numbers of boxes, which the source gets from a floating-point
  cube root, are left out.
\<close>

type_synonym rvec3 = "real \<times> real \<times> real"

fun rsub :: "rvec3 \<Rightarrow> rvec3 \<Rightarrow> rvec3" where
  "rsub (a, b, c) (x, y, z) = (a - x, b - y, c - z)"

fun rvec_of :: "ivec3 \<Rightarrow> rvec3" where
  "rvec_of (a, b, c) = (of_int a, of_int b, of_int c)"

text \<open>\<open>np.dot\<close> of a row vector with the matrix whose rows are the lattice vectors.\<close>

fun dot_avec :: "rvec3 \<Rightarrow> rvec3 \<times> rvec3 \<times> rvec3 \<Rightarrow> rvec3" where
  "dot_avec (x, y, z) ((a0, a1, a2), (b0, b1, b2), (c0, c1, c2)) =
     (x * a0 + y * b0 + z * c0, x * a1 + y * b1 + z * c1, x * a2 + y * b2 + z * c2)"

fun norm2 :: "rvec3 \<Rightarrow> real" where
  "norm2 (x, y, z) = x * x + y * y + z * z"

definition FINAL :: int where
  "FINAL = - 1"

text \<open>Reading a numpy array: a negative index counts from the end.\<close>

definition np_nth :: "'a list \<Rightarrow> int \<Rightarrow> 'a" where
  "np_nth xs i = (if i < 0 then xs ! nat (int (length xs) + i) else xs ! nat i)"

record neighbor_list =
  nl_avec :: "rvec3 \<times> rvec3 \<times> rvec3"
  nl_coo :: "rvec3 list"
  nl_nboxes :: "int \<times> int \<times> int"
  nl_box :: "int list"
  nl_first :: "int list"
  nl_next :: "int list"
  nl_T_latt :: "ivec3 list"
  nl_T_box :: "int list"

text \<open>\<open>star_setup\<close> without an interaction range: the 26 neighbours of the home box.\<close>

definition star_setup :: "ivec3 list" where
  "star_setup =
     filter (\<lambda>T. T \<noteq> (0, 0, 0))
       (concat (map (\<lambda>ix. concat (map (\<lambda>iy. map (\<lambda>iz. (ix, iy, iz)) [- 1, 0, 1]) [- 1, 0, 1]))
          [- 1, 0, 1]))"

fun box_ID :: "int \<times> int \<times> int \<Rightarrow> int \<Rightarrow> int \<Rightarrow> int \<Rightarrow> int" where
  "box_ID (Nba, Nbb, Nbc) na nb nc =
     (na + Nba) mod Nba + ((nb + Nbb) mod Nbb) * Nba + ((nc + Nbc) mod Nbc) * Nbb * Nba"

fun box_nabc :: "int \<times> int \<times> int \<Rightarrow> int \<Rightarrow> int \<times> int \<times> int" where
  "box_nabc (Nba, Nbb, Nbc) bid =
     (let nbox10 = Nbb * Nba; nc = bid div nbox10; rest = bid mod nbox10;
          nb = rest div Nba; na = rest mod Nba
      in (na, nb, nc))"

definition add_T_to_bid :: "int \<times> int \<times> int \<Rightarrow> int \<Rightarrow> int \<Rightarrow> int" where
  "add_T_to_bid nbx bid T =
     (case (box_nabc nbx bid, box_nabc nbx T) of
        ((na, nb, nc), (ta, tb, tc)) \<Rightarrow> box_ID nbx (na + ta) (nb + tb) (nc + tc))"

text \<open>The loop of the constructor that keeps the first occurrence of every box ID.\<close>

fun unique_bids :: "int \<times> int \<times> int \<Rightarrow> ivec3 list \<Rightarrow> int list \<Rightarrow> int list" where
  "unique_bids nbx [] acc = acc"
| "unique_bids nbx ((a, b, c) # Ts) acc =
     (let bid = box_ID nbx a b c
      in if bid \<in> set acc then unique_bids nbx Ts acc else unique_bids nbx Ts (acc @ [bid]))"

text \<open>
  \<open>_wrap_to_home_cell\<close> adds or subtracts 1 until the coordinate is in \<open>[0, 1)\<close>:
  the fractional part.
\<close>

fun wrap_to_home_cell :: "rvec3 \<Rightarrow> rvec3" where
  "wrap_to_home_cell (x, y, z) = (frac x, frac y, frac z)"

text \<open>One round of the loop of \<open>_build_neighbor_list\<close>, with \<open>_add_to_box\<close>.\<close>

fun assign_box :: "int \<times> int \<times> int \<Rightarrow> rvec3 list \<Rightarrow> nat \<Rightarrow> int list \<times> int list \<times> int list
    \<Rightarrow> int list \<times> int list \<times> int list" where
  "assign_box (Nba, Nbb, Nbc) cs i (bx, fi, nx) =
     (case cs ! i of (x, y, z) \<Rightarrow>
        let na = \<lfloor>x * of_int Nba\<rfloor>; nb = \<lfloor>y * of_int Nbb\<rfloor>; nc = \<lfloor>z * of_int Nbc\<rfloor>;
            bid = box_ID (Nba, Nbb, Nbc) na nb nc
        in (bx[i := bid], fi[nat bid := int i], nx[i := fi ! nat bid]))"

definition NeighborList ::
  "rvec3 \<times> rvec3 \<times> rvec3 \<Rightarrow> rvec3 list \<Rightarrow> int \<times> int \<times> int \<Rightarrow> neighbor_list" where
  "NeighborList lattice_vectors frac_coordinates nboxes =
     (let cs = map wrap_to_home_cell frac_coordinates;
          ncoo = length cs;
          nboxes_tot = (case nboxes of (a, b, c) \<Rightarrow> a * b * c);
          (bx, fi, nx) = fold (assign_box nboxes cs) [0 ..< ncoo]
             (replicate ncoo 0, replicate (nat nboxes_tot) FINAL, replicate ncoo 0)
      in \<lparr>nl_avec = lattice_vectors, nl_coo = cs, nl_nboxes = nboxes,
          nl_box = bx, nl_first = fi, nl_next = nx,
          nl_T_latt = (0, 0, 0) # star_setup,
          nl_T_box = unique_bids nboxes star_setup []\<rparr>)"

text \<open>
  \<open>_box_contents\<close>: the loop follows \<open>_next\<close> until it meets \<open>FINAL\<close>; for an
  empty box it starts from the index \<open>FINAL = -1\<close>, which numpy reads as the
  last entry.
\<close>

partial_function (option) box_walk :: "int list \<Rightarrow> int \<Rightarrow> int list \<Rightarrow> int list option" where
  "box_walk nx i ids =
     (if np_nth nx i \<noteq> FINAL then box_walk nx (np_nth nx i) (ids @ [np_nth nx i]) else Some ids)"

declare box_walk.simps [code]

definition box_contents :: "neighbor_list \<Rightarrow> int \<Rightarrow> int list option" where
  "box_contents nl bid =
     (let i = np_nth (nl_first nl) bid
      in box_walk (nl_next nl) i (if i \<noteq> FINAL then [i] else []))"

text \<open>The loop over \<open>_T_box\<close> of \<open>get_possible_neighbors\<close>.\<close>

fun add_boxes :: "neighbor_list \<Rightarrow> int \<Rightarrow> int list \<Rightarrow> int list \<Rightarrow> error + int list" where
  "add_boxes nl bid_home [] nbl = Inr nbl"
| "add_boxes nl bid_home (T # Ts) nbl =
     (case box_contents nl (add_T_to_bid (nl_nboxes nl) bid_home T) of
        None \<Rightarrow> Inl NonTermination
      | Some c \<Rightarrow> add_boxes nl bid_home Ts (nbl @ c))"

definition get_possible_neighbors :: "neighbor_list \<Rightarrow> nat \<Rightarrow> error + int list" where
  "get_possible_neighbors nl i =
     (let bid_home = nl_box nl ! i
      in case box_contents nl bid_home of
           None \<Rightarrow> Inl NonTermination
         | Some nbl \<Rightarrow>
             if int i \<notin> set nbl then Inl ValueError
             else add_boxes nl bid_home (nl_T_box nl) (remove1 (int i) nbl))"

text \<open>
  The loop over the possible neighbours of \<open>get_nearest_neighbors\<close>, on the
  three result lists and the running minimum \<open>d_min_min\<close>.
\<close>

fun nearest_scan ::
  "neighbor_list \<Rightarrow> real \<Rightarrow> rvec3 list \<Rightarrow> int list \<Rightarrow> int list \<times> real list \<times> ivec3 list \<times> real
     \<Rightarrow> int list \<times> real list \<times> ivec3 list \<times> real" where
  "nearest_scan nl dr coo_i_T [] st = st"
| "nearest_scan nl dr coo_i_T (j # js) (nbl, dists, Tvecs, d_min_min) =
     (let coo_j = dot_avec (np_nth (nl_coo nl) j) (nl_avec nl);
          d2 = map (\<lambda>c. norm2 (rsub c coo_j)) coo_i_T;
          d_min = sqrt (fold min (tl d2) (hd d2));
          (nbl1, dists1, Tvecs1) =
             (if d_min + dr < d_min_min then ([], [], []) else (nbl, dists, Tvecs));
          dmm = min d_min d_min_min
      in if d_min > dmm + dr then nearest_scan nl dr coo_i_T js (nbl1, dists1, Tvecs1, dmm)
         else let sel = filter (\<lambda>(d, T). d \<le> (dmm + dr) ^ 2) (zip d2 (nl_T_latt nl))
              in nearest_scan nl dr coo_i_T js
                   (nbl1 @ replicate (length sel) j, dists1 @ map (\<lambda>(d, T). sqrt d) sel,
                    Tvecs1 @ map snd sel, dmm))"

text \<open>The Cartesian positions of site \<open>i\<close> shifted by every lattice translation.\<close>

definition coo_i_T :: "neighbor_list \<Rightarrow> nat \<Rightarrow> rvec3 list" where
  "coo_i_T nl i =
     map (\<lambda>T. dot_avec (rsub (nl_coo nl ! i) (rvec_of T)) (nl_avec nl)) (nl_T_latt nl)"

definition get_nearest_neighbors ::
  "neighbor_list \<Rightarrow> nat \<Rightarrow> real \<Rightarrow> error + int list \<times> real list \<times> ivec3 list" where
  "get_nearest_neighbors nl i dr =
     (case get_possible_neighbors nl i of
        Inl e \<Rightarrow> Inl e
      | Inr possible \<Rightarrow>
          (case nearest_scan nl dr (coo_i_T nl i) possible
                  ([], [], [], sqrt (norm2 (dot_avec (1, 1, 1) (nl_avec nl)))) of
             (nbl, dists, Tvecs, d) \<Rightarrow> Inr (nbl, dists, Tvecs)))"

text \<open>
  A cell with edges 32, 64, 64 and three sites on the first axis, at the
  Cartesian positions 0, 14 and 19, in 2 x 2 x 2 boxes. All numbers are dyadic,
  so the float arithmetic of the source is exact on it.
\<close>

definition cell3 :: neighbor_list where
  "cell3 = NeighborList ((32, 0, 0), (0, 64, 0), (0, 0, 64))
             [(0, 0, 0), (7 / 16, 0, 0), (19 / 32, 0, 0)] (2, 2, 2)"

section \<open>Concrete lattices\<close>

text \<open>
  A periodic chain of \<open>n\<close> equidistant sites along the first lattice vector:
  site \<open>k\<close> at fractional coordinate \<open>k / n\<close>, its neighbours \<open>k - 1\<close> and \<open>k + 1\<close>,
  with the translation across the cell boundary at both ends.
\<close>

definition chain_lattice :: "nat \<Rightarrow> lattice" where
  "chain_lattice n = \<lparr>
     nsites = n,
     coo = map (\<lambda>k. (of_nat k / of_nat n, 0, 0)) [0 ..< n],
     nn = map (\<lambda>k. [(k + n - 1) mod n, (k + 1) mod n]) [0 ..< n],
     T_vectors = map (\<lambda>k. [(if k = 0 then (- 1, 0, 0) else (0, 0, 0)),
                             (if k + 1 = n then (1, 0, 0) else (0, 0, 0))]) [0 ..< n]\<rparr>"

text \<open>
  A periodic 2 x 2 square grid (cell edges 2, 2 and 4, sites at distance 1):
  each site meets its neighbour along either axis twice, once inside the cell
  and once across the boundary.
\<close>

definition grid22 :: lattice where
  "grid22 = \<lparr>
     nsites = 4,
     coo = [(0, 0, 0), (1 / 2, 0, 0), (0, 1 / 2, 0), (1 / 2, 1 / 2, 0)],
     nn = [[1, 1, 2, 2], [0, 0, 3, 3], [3, 3, 0, 0], [2, 2, 1, 1]],
     T_vectors =
       [[(0, 0, 0), (- 1, 0, 0), (0, 0, 0), (0, - 1, 0)],
        [(0, 0, 0), (1, 0, 0), (0, 0, 0), (0, - 1, 0)],
        [(0, 0, 0), (- 1, 0, 0), (0, 0, 0), (0, 1, 0)],
        [(0, 0, 0), (1, 0, 0), (0, 0, 0), (0, 1, 0)]]\<rparr>"

text \<open>
  A periodic chain of \<open>n\<close> equidistant sites along the space diagonal of the
  cell: site \<open>k\<close> at \<open>(k / n, k / n, k / n)\<close>, its neighbours \<open>k - 1\<close> and \<open>k + 1\<close>,
  with the translation \<open>(1, 1, 1)\<close> across the cell boundary.
\<close>

definition diag_lattice :: "nat \<Rightarrow> lattice" where
  "diag_lattice n = \<lparr>
     nsites = n,
     coo = map (\<lambda>k. (of_nat k / of_nat n, of_nat k / of_nat n, of_nat k / of_nat n)) [0 ..< n],
     nn = map (\<lambda>k. [(k + n - 1) mod n, (k + 1) mod n]) [0 ..< n],
     T_vectors = map (\<lambda>k. [(if k = 0 then (- 1, - 1, - 1) else (0, 0, 0)),
                             (if k + 1 = n then (1, 1, 1) else (0, 0, 0))]) [0 ..< n]\<rparr>"

section \<open>Auxiliary predicates\<close>

text \<open>The attributes that no merge ever touches.\<close>

definition frame_eq :: "percolator \<Rightarrow> percolator \<Rightarrow> bool" where
  "frame_eq s s' \<longleftrightarrow>
     occupied s' = occupied s \<and> vacant s' = vacant s \<and> percolating s' = percolating s \<and>
     special s' = special s \<and> num_common s' = num_common s \<and> nbonds_tot s' = nbonds_tot s"

text \<open>
  The \<open>_next\<close> chain that starts at a pointer: the list of the sites met until
  a negative entry ends it.
\<close>

fun chain :: "int list \<Rightarrow> int \<Rightarrow> nat list \<Rightarrow> bool" where
  "chain nx p [] = (p < 0)"
| "chain nx p (x # xs) = (p = int x \<and> x < length nx \<and> chain nx (nx ! x) xs)"

fun any_pos :: "ivec3 \<Rightarrow> bool" where
  "any_pos (a, b, c) = (a > 0 \<or> b > 0 \<or> c > 0)"

fun nonneg3 :: "ivec3 \<Rightarrow> bool" where
  "nonneg3 (a, b, c) = (0 \<le> a \<and> 0 \<le> b \<and> 0 \<le> c)"

text \<open>
  Cluster \<open>c\<close> is in order when its chain is the list \<open>ch c\<close>, its size is the
  length of that list, all its sites carry its ID and its wrapping counters
  are not negative; an emptied cluster has the empty chain.
\<close>

definition ok_cluster :: "percolator \<Rightarrow> (nat \<Rightarrow> nat list) \<Rightarrow> nat \<Rightarrow> bool" where
  "ok_cluster s ch c \<longleftrightarrow>
     chain (next_s s) (first s ! c) (ch c) \<and> size_c s ! c = int (length (ch c)) \<and>
     (\<forall>x \<in> set (ch c). cluster s ! x = int c) \<and> nonneg3 (is_wrapping s ! c) \<and>
     (ch c = [] \<longrightarrow> is_wrapping s ! c = (0, 0, 0))"

text \<open>The structural invariant of the percolator on a lattice of \<open>N\<close> sites.\<close>

definition wf :: "nat \<Rightarrow> percolator \<Rightarrow> (nat \<Rightarrow> nat list) \<Rightarrow> bool" where
  "wf N s ch \<longleftrightarrow>
     length (cluster s) = N \<and> length (next_s s) = N \<and> length (vec s) = N \<and>
     length (size_c s) = length (first s) \<and> length (is_wrapping s) = length (first s) \<and>
     (\<forall>c < length (first s). ok_cluster s ch c) \<and>
     (\<forall>i < N. 0 \<le> cluster s ! i \<longrightarrow>
        nat (cluster s ! i) < length (first s) \<and> i \<in> set (ch (nat (cluster s ! i)))) \<and>
     (\<forall>i < N. cluster s ! i < 0 \<longrightarrow> next_s s ! i < 0) \<and>
     distinct (vacant s) \<and> (\<forall>i \<in> set (vacant s). i < N \<and> cluster s ! i < 0) \<and>
     length (occupied s) + length (vacant s) = N"

text \<open>The sites of wrapping clusters, counted from the cluster tables.\<close>

definition contrib :: "percolator \<Rightarrow> int list" where
  "contrib s = map2 (\<lambda>w z. if isum3 w > 0 then z else 0) (is_wrapping s) (size_c s)"

definition perc_ok :: "percolator \<Rightarrow> bool" where
  "perc_ok s \<longleftrightarrow> npercolating s = sum_list (contrib s)"

definition largest_ok :: "percolator \<Rightarrow> bool" where
  "largest_ok s \<longleftrightarrow>
     (if first s = [] then largest s = - 1
      else 0 \<le> largest s \<and> nat (largest s) < length (first s) \<and>
           0 < size_c s ! nat (largest s) \<and>
           (\<forall>c < length (first s). size_c s ! c \<le> size_c s ! nat (largest s)))"

definition percolator_inv :: "nat \<Rightarrow> percolator \<Rightarrow> bool" where
  "percolator_inv N s \<longleftrightarrow> (\<exists>ch. wf N s ch) \<and> perc_ok s \<and> largest_ok s"

text \<open>What the percolator needs of a lattice: one neighbour list per site, of sites.\<close>

definition lattice_ok :: "lattice \<Rightarrow> bool" where
  "lattice_ok L \<longleftrightarrow>
     length (nn L) = nsites L \<and> (\<forall>i < nsites L. \<forall>j \<in> set (nn L ! i). j < nsites L)"

text \<open>
  A call returns normally with a state that satisfies \<open>P\<close>, or raises; it does
  not run forever.
\<close>

definition returns :: "(percolator \<Rightarrow> bool) \<Rightarrow> error + percolator \<Rightarrow> bool" where
  "returns P r = (case r of Inl e \<Rightarrow> e \<noteq> NonTermination | Inr s' \<Rightarrow> P s')"

text \<open>The same sites are occupied in both states.\<close>

definition same_occupation :: "nat \<Rightarrow> percolator \<Rightarrow> percolator \<Rightarrow> bool" where
  "same_occupation N s s' \<longleftrightarrow> (\<forall>i < N. (0 \<le> cluster s' ! i) = (0 \<le> cluster s ! i))"

text \<open>
  The number of sites in wrapping clusters, read off the cluster tables: the
  sum of the sizes of the live clusters whose wrapping vector has a positive
  component.
\<close>

definition wrapping_sites :: "percolator \<Rightarrow> int" where
  "wrapping_sites s =
     (\<Sum>c \<leftarrow> [0 ..< length (first s)].
        if 0 < size_c s ! c \<and> any_pos (is_wrapping s ! c) then size_c s ! c else 0)"

text \<open>The random additions number \<open>k\<close> to \<open>j - 1\<close> of a sample.\<close>

definition additions ::
  "lattice \<Rightarrow> (nat \<Rightarrow> nat) \<Rightarrow> nat \<Rightarrow> nat \<Rightarrow> percolator \<Rightarrow> error + percolator"
where
  "additions L rnd k j s = run L (map (\<lambda>n. (None, rnd n)) [k ..< j]) s"

text \<open>
  The test that ends a sample of \<open>percolation_point\<close>: the largest cluster wraps
  in all three directions.
\<close>

definition wraps_all :: "percolator \<Rightarrow> bool" where
  "wraps_all t = all_pos (is_wrapping t ! nat (largest t))"

text \<open>
  A trial of \<open>percolation_point\<close> starts with \<open>reset\<close>; its state after the first
  \<open>k\<close> random additions.
\<close>

definition trial :: "lattice \<Rightarrow> (nat \<Rightarrow> nat) \<Rightarrow> percolator \<Rightarrow> nat \<Rightarrow> error + percolator" where
  "trial L rnd s k = additions L rnd 0 k (reset L s)"

text \<open>
  A trial percolates: after one of its at most \<open>nsites\<close> additions, which all
  returned up to there, the largest cluster wraps in all three directions.
\<close>

definition percolates :: "lattice \<Rightarrow> (nat \<Rightarrow> nat) \<Rightarrow> percolator \<Rightarrow> bool" where
  "percolates L rnd s \<longleftrightarrow>
     (\<exists>k \<in> set [1 ..< nsites L + 1]. case trial L rnd s k of Inl e \<Rightarrow> False | Inr t \<Rightarrow> wraps_all t)"

text \<open>
  A trial is exhausted in the state \<open>st\<close>: all its \<open>nsites\<close> additions return,
  \<open>st\<close> is the state after the last one, and the trial does not percolate.
\<close>

definition exhausted :: "lattice \<Rightarrow> (nat \<Rightarrow> nat) \<Rightarrow> percolator \<Rightarrow> percolator \<Rightarrow> bool" where
  "exhausted L rnd s st \<longleftrightarrow> trial L rnd s (nsites L) = Inr st \<and> \<not> percolates L rnd s"

text \<open>
  A regular lattice: no neighbour list repeats a site, and every neighbour
  relation is listed from both sides.
\<close>

definition lattice_regular :: "lattice \<Rightarrow> bool" where
  "lattice_regular L \<longleftrightarrow>
     lattice_ok L \<and> (\<forall>i < nsites L. distinct (nn L ! i)) \<and>
     (\<forall>i < nsites L. \<forall>j \<in> set (nn L ! i). i \<in> set (nn L ! j))"

text \<open>The bond arrays have one flag per neighbour slot.\<close>

definition bonds_ok :: "lattice \<Rightarrow> percolator \<Rightarrow> bool" where
  "bonds_ok L s \<longleftrightarrow> map length (bonds s) = map length (nn L)"

section \<open>Verified properties\<close>

subsection \<open>The chain lattices\<close>

lemma chain_lattice_ok: "lattice_ok (chain_lattice (Suc n))"
  by (auto simp: lattice_ok_def chain_lattice_def simp del: upt_Suc)

lemma chain_lattice_4_regular: "lattice_regular (chain_lattice 4)"
proof -
  have nn4: "nn (chain_lattice 4) = [[3, 1], [0, 2], [1, 3], [2, 0]]" by code_simp
  have n4: "nsites (chain_lattice 4) = 4" by code_simp
  have ok: "lattice_ok (chain_lattice 4)" using chain_lattice_ok[of 3] by (simp add: eval_nat_numeral)
  have all4: "(\<forall>i<4. P i) = (P 0 \<and> P 1 \<and> P 2 \<and> P (3::nat))" for P
    by (auto simp: less_Suc_eq eval_nat_numeral)
  show ?thesis
    unfolding lattice_regular_def n4 nn4 all4 using ok by (simp add: n4 nn4)
qed

subsection \<open>Attributes left alone by the merges\<close>

lemma frame_eq_refl: "frame_eq s s"
  by (simp add: frame_eq_def)

lemma frame_eq_trans: "frame_eq s t \<Longrightarrow> frame_eq t u \<Longrightarrow> frame_eq s u"
  by (simp add: frame_eq_def)

lemma remember_bonds_frame: "remember_bonds L s a b = Inr s' \<Longrightarrow> frame_eq s s'"
  by (auto simp: remember_bonds_def frame_eq_def Let_def split: option.splits if_splits)

lemma merge_same_frame: "frame_eq s (merge_same s c d)"
  by (simp add: merge_same_def frame_eq_def Let_def)

lemma merge_counters_frame: "frame_eq s (merge_counters s c1 c2)"
  by (simp add: merge_counters_def frame_eq_def Let_def)

lemma merge_diff_frame: "merge_diff s c1 c2 d = Inr s' \<Longrightarrow> frame_eq s s'"
  by (auto simp: merge_diff_def merge_update_def retire_def frame_eq_def Let_def
      split: option.splits prod.splits if_splits)

lemma merge_clusters_frame: "merge_clusters L s c1 s1 c2 s2 T = Inr s' \<Longrightarrow> frame_eq s s'"
  unfolding merge_clusters_def Let_def
  by (auto split: if_splits sum.splits
      intro: frame_eq_refl frame_eq_trans[OF remember_bonds_frame merge_same_frame]
        frame_eq_trans[OF remember_bonds_frame frame_eq_trans[OF merge_counters_frame merge_diff_frame]])

lemma next_nearest_loop_frame: "next_nearest_loop L nb js s = Inr s' \<Longrightarrow> frame_eq s s'"
proof (induction js arbitrary: s)
  case Nil
  then show ?case by (simp add: frame_eq_refl)
next
  case (Cons j js)
  then show ?case
    by (auto simp: Let_def split: if_splits sum.splits
        dest!: merge_clusters_frame intro: frame_eq_trans)
qed

lemma neighbor_loop_frame: "neighbor_loop L site is s = Inr s' \<Longrightarrow> frame_eq s s'"
proof (induction "is" arbitrary: s)
  case Nil
  then show ?case by (simp add: frame_eq_refl)
next
  case (Cons i "is")
  then show ?case
    by (auto simp: Let_def split: if_splits sum.splits
        dest!: merge_clusters_frame next_nearest_loop_frame intro: frame_eq_trans)
qed

lemma add_percolating_site_percolating:
  "add_percolating_site L site rnd s = Inr s' \<Longrightarrow> percolating s' = percolating s"
  by (auto simp: add_percolating_site_def new_cluster_def Let_def frame_eq_def
      split: if_splits option.splits dest!: neighbor_loop_frame)

lemma run_percolating: "run L ops s = Inr s' \<Longrightarrow> percolating s' = percolating s"
proof (induction ops arbitrary: s)
  case Nil
  then show ?case by simp
next
  case (Cons op ops)
  then show ?case
    by (cases op) (auto split: sum.splits dest!: add_percolating_site_percolating)
qed

lemma start_percolating: "percolating (start L r) = None"
  by (simp add: start_def reset_def init_def set_special_percolation_rule_def split: option.splits)

text \<open>
  Claim C3. The property \<open>num_percolating\<close> reads the attribute \<open>_percolating\<close>,
  which no method assigns: in every state reached from \<open>reset\<close> by additions
  the query raises \<open>AttributeError\<close> instead of returning \<open>npercolating\<close>.
\<close>

theorem num_percolating_raises:
  "run L ops (start L r) = Inr s \<Longrightarrow> num_percolating s = Inl AttributeError"
  by (simp add: num_percolating_def run_percolating start_percolating)

theorem num_percolating_raises_witness:
  "num_percolating (projr (run (chain_lattice 4) [(None, 0), (Some 1, 0)] (start (chain_lattice 4) None)))
     = Inl AttributeError"
proof -
  have "run (chain_lattice 4) [(None, 0), (Some 1, 0)] (start (chain_lattice 4) None)
      = Inr (projr (run (chain_lattice 4) [(None, 0), (Some 1, 0)] (start (chain_lattice 4) None)))"
    by code_simp
  then show ?thesis by (rule num_percolating_raises)
qed

subsection \<open>Chains and the walk of a merge\<close>

lemma chain_unique: "chain nx p xs \<Longrightarrow> chain nx p ys \<Longrightarrow> xs = ys"
proof (induction xs arbitrary: p ys)
  case Nil
  then show ?case by (cases ys) auto
next
  case (Cons x xs)
  then show ?case by (cases ys) auto
qed

lemma chain_suffix: "chain nx p (xs @ y # ys) \<Longrightarrow> chain nx (int y) (y # ys)"
  by (induction xs arbitrary: p) auto

lemma chain_hd_notin: "chain nx (int x) (x # xs) \<Longrightarrow> x \<notin> set xs"
proof
  assume c: "chain nx (int x) (x # xs)" and "x \<in> set xs"
  then obtain as bs where xs: "xs = as @ x # bs" by (auto simp: in_set_conv_decomp)
  from c have "chain nx (int x) ((x # as) @ x # bs)" by (simp add: xs)
  then have "chain nx (int x) (x # bs)" by (rule chain_suffix)
  with c have "x # xs = x # bs" by (rule chain_unique)
  then show False by (simp add: xs)
qed

lemma chain_distinct: "chain nx p xs \<Longrightarrow> distinct xs"
proof (induction xs arbitrary: p)
  case Nil
  then show ?case by simp
next
  case (Cons x xs)
  then have "chain nx (int x) (x # xs)" by simp
  from chain_hd_notin[OF this] Cons show ?case by auto
qed

lemma chain_bound: "chain nx p xs \<Longrightarrow> x \<in> set xs \<Longrightarrow> x < length nx"
  by (induction xs arbitrary: p) auto

lemma chain_update_other: "y \<notin> set xs \<Longrightarrow> chain (nx[y := v]) p xs = chain nx p xs"
  by (induction xs arbitrary: p) auto

lemma chain_splice_aux:
  assumes "chain nx p xs" "xs \<noteq> []" "h \<notin> set xs" "chain nx q r" "h \<notin> set r"
    "set xs \<inter> set r = {}"
  shows "chain (nx[last xs := q, h := v]) p (xs @ r)"
  using assms
proof (induction xs arbitrary: p)
  case Nil
  then show ?case by simp
next
  case (Cons x xs)
  from Cons.prems have xh: "x \<noteq> h" and xl: "x < length nx" and px: "p = int x" by auto
  show ?case
  proof (cases "xs = []")
    case True
    from Cons.prems have "x \<notin> set r" by auto
    with Cons.prems True xh xl px show ?thesis
      by (simp add: chain_update_other)
  next
    case False
    from Cons.prems have d: "distinct (x # xs)" by (intro chain_distinct[of nx p]) simp
    with False have "last xs \<noteq> x" by (metis distinct.simps(2) last_in_set)
    with Cons False xh xl px show ?thesis by auto
  qed
qed

lemma chain_splice:
  assumes c1: "chain nx (int h) (h # r)" and c2: "chain nx p xs" and ne: "xs \<noteq> []"
    and disj: "set (h # r) \<inter> set xs = {}"
  shows "chain (nx[last xs := nx ! h, h := p]) (int h) (h # xs @ r)"
proof -
  from c1 have hl: "h < length nx" and cr: "chain nx (nx ! h) r" by auto
  from chain_hd_notin[OF c1] have hr: "h \<notin> set r" .
  from disj have hx: "h \<notin> set xs" and xr: "set xs \<inter> set r = {}" by auto
  from chain_splice_aux[OF c2 ne hx cr hr xr, of p]
  have "chain (nx[last xs := nx ! h, h := p]) p (xs @ r)" .
  with hl show ?thesis by simp
qed

lemma walk_cluster_chain:
  assumes "chain nx (int i) xs" "length cl = length nx" "length v = length nx"
  shows "\<exists>v' cl'. walk_cluster nx d c v cl i = Some (v', cl', last xs) \<and>
           length v' = length v \<and> length cl' = length cl \<and>
           (\<forall>k < length nx. cl' ! k = (if k \<in> set xs then c else cl ! k)) \<and>
           (\<forall>k < length nx. v' ! k = (if k \<in> set xs then vadd (v ! k) d else v ! k))"
  using assms
proof (induction xs arbitrary: i v cl)
  case Nil
  then show ?case by simp
next
  case (Cons x xs)
  then have ix: "i = x" and xl: "x < length nx" and rest: "chain nx (nx ! x) xs" by auto
  from xl rest have "chain nx (int x) (x # xs)" by simp
  then have xn: "x \<notin> set xs" by (rule chain_hd_notin)
  show ?case
  proof (cases xs)
    case Nil
    with rest have "nx ! x < 0" by simp
    with Nil ix xl Cons.prems show ?thesis
      by (subst walk_cluster.simps) (auto simp: nth_list_update)
  next
    case (Cons y ys)
    with rest have nxy: "nx ! x = int y" by simp
    from rest nxy have ch: "chain nx (int y) xs" by simp
    from Cons.IH[OF ch, of "cl[x := c]" "v[x := vadd (v ! x) d]"] Cons.prems
    obtain v' cl' where w: "walk_cluster nx d c (v[x := vadd (v ! x) d]) (cl[x := c]) y = Some (v', cl', last xs)"
      and l: "length v' = length v" "length cl' = length cl"
      and pc: "\<forall>k < length nx. cl' ! k = (if k \<in> set xs then c else (cl[x := c]) ! k)"
      and pv: "\<forall>k < length nx. v' ! k = (if k \<in> set xs then vadd ((v[x := vadd (v ! x) d]) ! k) d else (v[x := vadd (v ! x) d]) ! k)"
      by auto
    have "walk_cluster nx d c v cl i = Some (v', cl', last (x # xs))"
      using w nxy ix Cons by (subst walk_cluster.simps) simp
    moreover have "\<forall>k < length nx. cl' ! k = (if k \<in> set (x # xs) then c else cl ! k)"
      using pc xn xl \<open>length cl = length nx\<close> by (auto simp: nth_list_update)
    moreover have "\<forall>k < length nx. v' ! k = (if k \<in> set (x # xs) then vadd (v ! k) d else v ! k)"
      using pv xn xl \<open>length v = length nx\<close> by (auto simp: nth_list_update)
    ultimately show ?thesis using l by blast
  qed
qed

subsection \<open>The structural invariant across a merge\<close>

lemma retire_fields [simp]:
  "cluster (retire s c2) = cluster s" "next_s (retire s c2) = next_s s"
  "vec (retire s c2) = vec s" "vacant (retire s c2) = vacant s"
  "occupied (retire s c2) = occupied s" "npercolating (retire s c2) = npercolating s"
  "largest (retire s c2) = largest s"
  by (simp_all add: retire_def)

lemma retire_lengths:
  assumes "length (size_c s) = length (first s)" "length (is_wrapping s) = length (first s)"
    "c2 < length (first s)"
  shows "length (size_c (retire s c2)) = length (first (retire s c2))"
    and "length (is_wrapping (retire s c2)) = length (first (retire s c2))"
    and "length (first (retire s c2)) = (if length (first s) = c2 + 1 then c2 else length (first s))"
  using assms by (auto simp: retire_def)

lemma retire_nth_other:
  assumes "length (size_c s) = length (first s)" "length (is_wrapping s) = length (first s)"
    "c < length (first (retire s c2))" "c \<noteq> c2"
  shows "first (retire s c2) ! c = first s ! c"
    and "size_c (retire s c2) ! c = size_c s ! c"
    and "is_wrapping (retire s c2) ! c = is_wrapping s ! c"
  using assms by (auto simp: retire_def nth_butlast split: if_splits)

lemma retire_nth_same:
  assumes "length (size_c s) = length (first s)" "length (is_wrapping s) = length (first s)"
    "c2 < length (first (retire s c2))"
  shows "first (retire s c2) ! c2 = - 1"
    and "size_c (retire s c2) ! c2 = 0"
    and "is_wrapping (retire s c2) ! c2 = (0, 0, 0)"
  using assms by (auto simp: retire_def split: if_splits)

lemma merge_update_fields [simp]:
  "first (merge_update s c1 c2 v' cl' i) = first s"
  "cluster (merge_update s c1 c2 v' cl' i) = cl'"
  "vec (merge_update s c1 c2 v' cl' i) = v'"
  "vacant (merge_update s c1 c2 v' cl' i) = vacant s"
  "occupied (merge_update s c1 c2 v' cl' i) = occupied s"
  "npercolating (merge_update s c1 c2 v' cl' i) = npercolating s"
  "size_c (merge_update s c1 c2 v' cl' i) = (size_c s)[c1 := size_c s ! c1 + size_c s ! c2]"
  "is_wrapping (merge_update s c1 c2 v' cl' i) =
     (is_wrapping s)[c1 := ivadd (is_wrapping s ! c1) (is_wrapping s ! c2)]"
  "next_s (merge_update s c1 c2 v' cl' i) =
     (next_s s)[i := next_s s ! nat (first s ! c1), nat (first s ! c1) := first s ! c2]"
  by (simp_all add: merge_update_def Let_def)

lemma merge_update_largest:
  "largest (merge_update s c1 c2 v' cl' i) =
     (if ((size_c s)[c1 := size_c s ! c1 + size_c s ! c2]) ! c1
          > ((size_c s)[c1 := size_c s ! c1 + size_c s ! c2]) ! nat (largest s)
      then int c1 else largest s)"
  by (simp add: merge_update_def Let_def)

lemma nonneg3_ivadd: "nonneg3 a \<Longrightarrow> nonneg3 b \<Longrightarrow> nonneg3 (ivadd a b)"
  by (cases a; cases b) simp

lemma wf_merge_update_retire:
  assumes wf: "wf N s ch" and ne: "c1 \<noteq> c2"
    and l1: "c1 < length (first s)" and l2: "c2 < length (first s)"
    and n1: "ch c1 \<noteq> []" and n2: "ch c2 \<noteq> []"
    and lv: "length v' = N" and lc: "length cl' = N"
    and pc: "\<forall>k<N. cl' ! k = (if k \<in> set (ch c2) then int c1 else cluster s ! k)"
  shows "wf N (retire (merge_update s c1 c2 v' cl' (last (ch c2))) c2)
           (ch(c1 := hd (ch c1) # ch c2 @ tl (ch c1), c2 := []))"
proof -
  let ?u = "merge_update s c1 c2 v' cl' (last (ch c2))"
  let ?s' = "retire ?u c2"
  let ?ch' = "ch(c1 := hd (ch c1) # ch c2 @ tl (ch c1), c2 := [])"
  let ?nx = "next_s s"
  from wf have len: "length (cluster s) = N" "length (next_s s) = N" "length (vec s) = N"
      "length (size_c s) = length (first s)" "length (is_wrapping s) = length (first s)"
    and okc: "\<And>c. c < length (first s) \<Longrightarrow> ok_cluster s ch c"
    and occ: "\<And>i. i < N \<Longrightarrow> 0 \<le> cluster s ! i \<Longrightarrow>
                nat (cluster s ! i) < length (first s) \<and> i \<in> set (ch (nat (cluster s ! i)))"
    and vac: "\<And>i. i < N \<Longrightarrow> cluster s ! i < 0 \<Longrightarrow> next_s s ! i < 0"
    and rest: "distinct (vacant s)" "\<forall>i \<in> set (vacant s). i < N \<and> cluster s ! i < 0"
      "length (occupied s) + length (vacant s) = N"
    by (auto simp: wf_def)
  have chn: "chain ?nx (first s ! c) (ch c)" and lab: "\<And>x. x \<in> set (ch c) \<Longrightarrow> cluster s ! x = int c"
    and szc: "size_c s ! c = int (length (ch c))" and nng: "nonneg3 (is_wrapping s ! c)"
    if "c < length (first s)" for c
    using okc[OF that] by (auto simp: ok_cluster_def)
  have bnd: "x < N" if "c < length (first s)" "x \<in> set (ch c)" for c x
    using chain_bound[OF chn[OF that(1)] that(2)] len by simp
  obtain h r1 where ch1: "ch c1 = h # r1" using n1 by (cases "ch c1") auto
  from chn[OF l1] ch1 have f1: "first s ! c1 = int h" and hN: "h < N"
    and c1c: "chain ?nx (int h) (h # r1)" using len by auto
  have disj: "set (ch c) \<inter> set (ch c') = {}"
    if "c < length (first s)" "c' < length (first s)" "c \<noteq> c'" for c c'
    using lab[OF that(1)] lab[OF that(2)] that(3) by fastforce
  have lastin: "last (ch c2) \<in> set (ch c2)" using n2 by simp
  have unxt: "next_s ?s' = ?nx[last (ch c2) := ?nx ! h, h := first s ! c2]"
    by (simp add: f1)
  have ulen: "length (size_c ?u) = length (first ?u)" "length (is_wrapping ?u) = length (first ?u)"
    "c2 < length (first ?u)"
    using len l2 by simp_all
  note rl = retire_lengths[OF ulen] and ro = retire_nth_other[OF ulen(1,2)]
    and rs = retire_nth_same[OF ulen(1,2)]
  have lens': "length (first ?s') \<le> length (first s)" using rl(3) l2 by (simp split: if_splits)
  have c1': "c1 < length (first ?s')" using rl(3) l1 l2 ne by (simp split: if_splits)
  have notc2: "c < length (first s)" "c = c2 \<Longrightarrow> length (first s) \<noteq> c2 + 1"
    if "c < length (first ?s')" for c
    using that rl(3) l2 by (auto split: if_splits)
  have ok1: "ok_cluster ?s' ?ch' c1"
  proof -
    have fs: "first ?s' ! c1 = int h" "?ch' c1 = h # ch c2 @ r1"
      "size_c ?s' ! c1 = int (length (h # ch c2 @ r1))"
      "is_wrapping ?s' ! c1 = ivadd (is_wrapping s ! c1) (is_wrapping s ! c2)"
      using ro[OF c1' ne] ne l1 len szc[OF l1] szc[OF l2] by (simp_all add: ch1 f1)
    have "chain (next_s ?s') (int h) (h # ch c2 @ r1)"
      unfolding unxt
      by (rule chain_splice[OF c1c chn[OF l2] n2])
        (use disj[OF l1 l2 ne] ch1 in auto)
    moreover have "\<forall>x \<in> set (h # ch c2 @ r1). cluster ?s' ! x = int c1"
    proof
      fix x assume that: "x \<in> set (h # ch c2 @ r1)"
      then have "x \<in> set (ch c1) \<or> x \<in> set (ch c2)" by (auto simp: ch1)
      then have "x < N" using bnd l1 l2 by blast
      with pc that lab[OF l1] show "cluster ?s' ! x = int c1" by (auto simp: ch1)
    qed
    moreover have "nonneg3 (ivadd (is_wrapping s ! c1) (is_wrapping s ! c2))"
      by (intro nonneg3_ivadd nng l1 l2)
    ultimately show ?thesis
      unfolding ok_cluster_def fs by simp
  qed
  have ok2: "ok_cluster ?s' ?ch' c2" if "c2 < length (first ?s')"
    using rs[OF that] by (simp add: ok_cluster_def)
  have oko: "ok_cluster ?s' ?ch' c" if c: "c < length (first ?s')" and "c \<noteq> c1" "c \<noteq> c2" for c
  proof -
    from notc2[OF c] have cl: "c < length (first s)" by simp
    have hn: "h \<notin> set (ch c)" using disj[OF l1 cl] that ch1 by auto
    have ln: "last (ch c2) \<notin> set (ch c)" using disj[OF l2 cl] that lastin by auto
    have "chain (next_s ?s') (first s ! c) (ch c)"
      unfolding unxt using chn[OF cl] hn ln by (simp add: chain_update_other)
    moreover have "cluster ?s' ! x = int c" if "x \<in> set (ch c)" for x
    proof -
      have "x \<notin> set (ch c2)" using disj[OF l2 cl] \<open>c \<noteq> c2\<close> that by auto
      with pc bnd[OF cl that] lab[OF cl that] show ?thesis by simp
    qed
    ultimately show ?thesis
      using ro[OF c \<open>c \<noteq> c2\<close>] that szc[OF cl] nng[OF cl] okc[OF cl]
      by (simp add: ok_cluster_def)
  qed
  have okall: "\<forall>c < length (first ?s'). ok_cluster ?s' ?ch' c"
    using ok1 ok2 oko by blast
  have occ': "nat (cluster ?s' ! i) < length (first ?s') \<and> i \<in> set (?ch' (nat (cluster ?s' ! i)))"
    if i: "i < N" and nn: "0 \<le> cluster ?s' ! i" for i
  proof (cases "i \<in> set (ch c2)")
    case True
    with pc i have "cluster ?s' ! i = int c1" by simp
    with True c1' ne show ?thesis by simp
  next
    case False
    with pc i have e: "cluster ?s' ! i = cluster s ! i" by simp
    with nn occ[OF i] have a: "nat (cluster s ! i) < length (first s)"
      and b: "i \<in> set (ch (nat (cluster s ! i)))" by auto
    from b False have n2': "nat (cluster s ! i) \<noteq> c2" by auto
    with a rl(3) have "nat (cluster s ! i) < length (first ?s')" by (simp split: if_splits)
    then have lt: "nat (cluster ?s' ! i) < length (first ?s')" using e by simp
    have "i \<in> set (?ch' (nat (cluster s ! i)))"
    proof (cases "nat (cluster s ! i) = c1")
      case True
      with b have "i \<in> set (h # r1)" by (simp add: ch1)
      with True ne show ?thesis by (auto simp: ch1)
    next
      case False
      with b n2' show ?thesis by simp
    qed
    with lt show ?thesis using e by simp
  qed
  have vac': "next_s ?s' ! i < 0" if i: "i < N" and neg: "cluster ?s' ! i < 0" for i
  proof -
    from pc i neg have nin: "i \<notin> set (ch c2)" and e: "cluster s ! i < 0"
      by (auto split: if_splits)
    have "i \<noteq> h" using lab[OF l1, of h] e ch1 by auto
    moreover have "i \<noteq> last (ch c2)" using nin lastin by auto
    ultimately show ?thesis unfolding unxt using vac[OF i e] by simp
  qed
  have vacs: "\<forall>i \<in> set (vacant ?s'). i < N \<and> cluster ?s' ! i < 0"
  proof
    fix i assume "i \<in> set (vacant ?s')"
    with rest have a: "i < N" "cluster s ! i < 0" by auto
    then have "i \<notin> set (ch c2)" using lab[OF l2, of i] by auto
    with pc a show "i < N \<and> cluster ?s' ! i < 0" by simp
  qed
  show ?thesis
    unfolding wf_def
    using lc lv len rl(1,2) okall occ' vac' vacs rest
    by (simp add: unxt)
qed

subsection \<open>The counters across a merge of two clusters\<close>

lemma merge_diff_Inr:
  assumes wf: "wf N s ch" and l2: "c2 < length (first s)" and n2: "ch c2 \<noteq> []"
  shows "\<exists>v' cl'. merge_diff s c1 c2 d = Inr (retire (merge_update s c1 c2 v' cl' (last (ch c2))) c2) \<and>
           length v' = N \<and> length cl' = N \<and>
           (\<forall>k<N. cl' ! k = (if k \<in> set (ch c2) then int c1 else cluster s ! k)) \<and>
           (\<forall>k<N. v' ! k = (if k \<in> set (ch c2) then vadd (vec s ! k) d else vec s ! k))"
proof -
  from wf l2 have len: "length (cluster s) = N" "length (next_s s) = N" "length (vec s) = N"
    and c: "chain (next_s s) (first s ! c2) (ch c2)"
    by (auto simp: wf_def ok_cluster_def)
  from c n2 have f: "first s ! c2 = int (hd (ch c2))" by (cases "ch c2") auto
  with c have c': "chain (next_s s) (int (nat (first s ! c2))) (ch c2)" by simp
  from walk_cluster_chain[OF c', of "cluster s" "vec s" d "int c1"] len
  obtain v' cl' where w: "walk_cluster (next_s s) d (int c1) (vec s) (cluster s) (nat (first s ! c2))
        = Some (v', cl', last (ch c2))"
    and l: "length v' = N" "length cl' = N"
    and pc: "\<forall>k<N. cl' ! k = (if k \<in> set (ch c2) then int c1 else cluster s ! k)"
    and pv: "\<forall>k<N. v' ! k = (if k \<in> set (ch c2) then vadd (vec s ! k) d else vec s ! k)"
    by auto
  from w have "merge_diff s c1 c2 d = Inr (retire (merge_update s c1 c2 v' cl' (last (ch c2))) c2)"
    by (simp add: merge_diff_def)
  with l pc pv show ?thesis by blast
qed

lemma contrib_length: "length (is_wrapping s) = length (size_c s) \<Longrightarrow> length (contrib s) = length (size_c s)"
  by (simp add: contrib_def)

lemma contrib_nth:
  "length (is_wrapping s) = length (size_c s) \<Longrightarrow> c < length (size_c s) \<Longrightarrow>
   contrib s ! c = (if isum3 (is_wrapping s ! c) > 0 then size_c s ! c else 0)"
  by (simp add: contrib_def)

lemma sum_list_butlast: "xs \<noteq> [] \<Longrightarrow> sum_list (butlast xs) = sum_list xs - (last xs :: int)"
  by (induction xs) auto

lemma sum_list_update_int:
  "k < length xs \<Longrightarrow> sum_list (xs[k := x]) = sum_list xs - xs ! k + (x :: int)"
proof (induction xs arbitrary: k)
  case Nil
  then show ?case by simp
next
  case (Cons a xs)
  then show ?case by (cases k) auto
qed

lemma map2_update:
  "map2 f (xs[i := x]) (ys[i := y]) = (map2 f xs ys)[i := f x y]"
proof (rule nth_equalityI)
  show "length (map2 f (xs[i := x]) (ys[i := y])) = length ((map2 f xs ys)[i := f x y])" by simp
next
  fix k assume "k < length (map2 f (xs[i := x]) (ys[i := y]))"
  then have "k < length xs" "k < length ys" by simp_all
  then show "map2 f (xs[i := x]) (ys[i := y]) ! k = (map2 f xs ys)[i := f x y] ! k"
    by (cases "k = i") simp_all
qed

lemma map2_butlast:
  "length xs = length ys \<Longrightarrow> map2 f (butlast xs) (butlast ys) = butlast (map2 f xs ys)"
  by (rule nth_equalityI) (auto simp: nth_butlast)

lemma contrib_retire:
  assumes "length (size_c s) = length (first s)" "length (is_wrapping s) = length (first s)"
    "c2 < length (first s)"
  shows "sum_list (contrib (retire s c2)) = sum_list (contrib s) - contrib s ! c2"
proof (cases "length (first s) = c2 + 1")
  case True
  have cl: "length (contrib s) = c2 + 1" using True assms by (simp add: contrib_def)
  then have ne: "contrib s \<noteq> []" by auto
  with cl have l: "last (contrib s) = contrib s ! c2" by (simp add: last_conv_nth)
  have "contrib (retire s c2) = butlast (contrib s)"
    using True assms unfolding retire_def contrib_def by (simp add: map2_butlast)
  with sum_list_butlast[OF ne] l show ?thesis by simp
next
  case False
  have cl: "length (contrib s) = length (first s)" using assms by (simp add: contrib_def)
  have "contrib (retire s c2) = (contrib s)[c2 := 0]"
    using False unfolding retire_def contrib_def by (simp add: map2_update)
  with assms cl show ?thesis by (simp add: sum_list_update_int)
qed

lemma contrib_merge_update:
  "contrib (merge_update s c1 c2 v' cl' i) =
     (contrib s)[c1 := (if isum3 (ivadd (is_wrapping s ! c1) (is_wrapping s ! c2)) > 0
                        then size_c s ! c1 + size_c s ! c2 else 0)]"
  unfolding contrib_def merge_update_fields by (rule map2_update)

lemma isum3_ivadd: "isum3 (ivadd a b) = isum3 a + isum3 b"
  by (cases a; cases b) simp

lemma nonneg3_isum3: "nonneg3 a \<Longrightarrow> 0 \<le> isum3 a"
  by (cases a) simp

lemma perc_ok_merge_diff:
  assumes p: "perc_ok s" and len: "length (size_c s) = length (first s)"
    "length (is_wrapping s) = length (first s)"
    and l1: "c1 < length (first s)" and l2: "c2 < length (first s)" and ne: "c1 \<noteq> c2"
    and nn: "nonneg3 (is_wrapping s ! c1)" "nonneg3 (is_wrapping s ! c2)"
  shows "perc_ok (retire (merge_update (merge_counters s c1 c2) c1 c2 v' cl' i) c2)"
proof -
  let ?m = "merge_counters s c1 c2"
  let ?u = "merge_update ?m c1 c2 v' cl' i"
  have mf: "first ?m = first s" "size_c ?m = size_c s" "is_wrapping ?m = is_wrapping s"
    "contrib ?m = contrib s"
    by (simp_all add: merge_counters_def Let_def contrib_def)
  have ul: "length (size_c ?u) = length (first ?u)" "length (is_wrapping ?u) = length (first ?u)"
    "c2 < length (first ?u)"
    using len l2 by (simp_all add: mf)
  have cu: "contrib ?u = (contrib s)[c1 := (if isum3 (ivadd (is_wrapping s ! c1) (is_wrapping s ! c2)) > 0
                        then size_c s ! c1 + size_c s ! c2 else 0)]"
    using contrib_merge_update[of ?m c1 c2 v' cl' i] by (simp add: mf)
  have cl: "length (contrib s) = length (first s)" using len by (simp add: contrib_def)
  have s1: "sum_list (contrib (retire ?u c2)) = sum_list (contrib ?u) - contrib ?u ! c2"
    by (rule contrib_retire[OF ul])
  have n1: "contrib s ! c1 = (if isum3 (is_wrapping s ! c1) > 0 then size_c s ! c1 else 0)"
    and n2: "contrib s ! c2 = (if isum3 (is_wrapping s ! c2) > 0 then size_c s ! c2 else 0)"
    using len l1 l2 by (simp_all add: contrib_nth)
  have np: "npercolating (retire ?u c2) = npercolating ?m" by simp
  from nonneg3_isum3[OF nn(1)] nonneg3_isum3[OF nn(2)]
  have "npercolating ?m = sum_list (contrib s) - contrib s ! c1 - contrib s ! c2
     + (if isum3 (ivadd (is_wrapping s ! c1) (is_wrapping s ! c2)) > 0
                        then size_c s ! c1 + size_c s ! c2 else 0)"
    using p by (auto simp: perc_ok_def merge_counters_def Let_def n1 n2 isum3_ivadd)
  moreover have "sum_list (contrib ?u) - contrib ?u ! c2 = sum_list (contrib s) - contrib s ! c1 - contrib s ! c2
     + (if isum3 (ivadd (is_wrapping s ! c1) (is_wrapping s ! c2)) > 0
                        then size_c s ! c1 + size_c s ! c2 else 0)"
    unfolding cu using cl l1 l2 ne by (simp add: sum_list_update_int)
  ultimately show ?thesis unfolding perc_ok_def np s1 by simp
qed

lemma largest_ok_merge_diff:
  assumes lo: "largest_ok s" and len: "length (size_c s) = length (first s)"
    "length (is_wrapping s) = length (first s)"
    and l1: "c1 < length (first s)" and l2: "c2 < length (first s)" and ne: "c1 \<noteq> c2"
    and p1: "0 < size_c s ! c1" and p2: "0 \<le> size_c s ! c2"
  shows "largest_ok (retire (merge_update (merge_counters s c1 c2) c1 c2 v' cl' i) c2)"
proof -
  let ?m = "merge_counters s c1 c2"
  let ?u = "merge_update ?m c1 c2 v' cl' i"
  let ?s' = "retire ?u c2"
  let ?sz = "(size_c s)[c1 := size_c s ! c1 + size_c s ! c2]"
  have mf: "first ?m = first s" "size_c ?m = size_c s" "is_wrapping ?m = is_wrapping s"
    "largest ?m = largest s"
    by (simp_all add: merge_counters_def Let_def)
  have ul: "length (size_c ?u) = length (first ?u)" "length (is_wrapping ?u) = length (first ?u)"
    "c2 < length (first ?u)"
    using len l2 by (simp_all add: mf)
  note rl = retire_lengths[OF ul] and ro = retire_nth_other[OF ul(1,2)]
    and rs = retire_nth_same[OF ul(1,2)]
  from lo l1 have lg: "0 \<le> largest s" "nat (largest s) < length (first s)"
    "0 < size_c s ! nat (largest s)"
    and mx: "\<And>c. c < length (first s) \<Longrightarrow> size_c s ! c \<le> size_c s ! nat (largest s)"
    by (auto simp: largest_ok_def split: if_splits)
  define g where "g = largest ?u"
  have g: "g = (if ?sz ! c1 > ?sz ! nat (largest s) then int c1 else largest s)"
    by (simp add: g_def merge_update_largest mf)
  have lg': "largest ?s' = g" by (simp add: g_def)
  have szc1: "?sz ! c1 = size_c s ! c1 + size_c s ! c2" using l1 len by simp
  have szo: "?sz ! c = size_c s ! c" if "c \<noteq> c1" for c using that by simp
  have gnn: "0 \<le> g" using g lg by simp
  have gl: "nat g < length (first s)" using g lg l1 by simp
  have gne: "nat g \<noteq> c2"
  proof
    assume e: "nat g = c2"
    with g ne have "largest s = int c2" "\<not> ?sz ! c1 > ?sz ! nat (largest s)"
      using lg by (auto split: if_splits)
    with szc1 szo[of c2] ne p1 show False by simp
  qed
  have c1': "c1 < length (first ?s')" using rl(3) l1 l2 ne by (simp add: mf split: if_splits)
  have gl': "nat g < length (first ?s')" using rl(3) gl gne l2 by (simp add: mf split: if_splits)
  have szg: "size_c ?s' ! nat g = ?sz ! nat g" using ro(2)[OF gl' gne] by (simp add: mf)
  have ge: "size_c s ! nat (largest s) \<le> ?sz ! nat g \<and> ?sz ! c1 \<le> ?sz ! nat g"
    using g szc1 szo[of "nat (largest s)"] p2 lg by (cases "nat (largest s) = c1") auto
  have mx': "size_c ?s' ! c \<le> size_c ?s' ! nat g" if c: "c < length (first ?s')" for c
  proof (cases "c = c2")
    case True
    with rs(2)[OF] c have "size_c ?s' ! c = 0" by simp
    with szg ge lg show ?thesis by simp
  next
    case False
    from c rl(3) l2 have cl: "c < length (first s)" by (simp add: mf split: if_splits)
    have "size_c ?s' ! c = ?sz ! c" using ro(2)[OF c False] by (simp add: mf)
    with szg ge mx[OF cl] szo[of c] show ?thesis by (cases "c = c1") auto
  qed
  have "first ?s' \<noteq> []" using c1' by auto
  moreover have "0 < size_c ?s' ! nat g" using szg ge lg by simp
  ultimately show ?thesis
    unfolding largest_ok_def lg' using gnn gl' mx' by simp
qed

subsection \<open>The invariant across \<open>_merge_clusters\<close>\<close>

lemma returns_Inr [simp]: "returns P (Inr s) = P s"
  by (simp add: returns_def)

lemma returns_Inl [simp]: "returns P (Inl e) = (e \<noteq> NonTermination)"
  by (simp add: returns_def)

lemma returns_bind:
  assumes "returns P r" "\<And>s'. r = Inr s' \<Longrightarrow> P s' \<Longrightarrow> returns Q (f s')"
  shows "returns Q (case r of Inl e \<Rightarrow> Inl e | Inr s' \<Rightarrow> f s')"
  using assms by (cases r) auto

lemma returns_mono: "returns P r \<Longrightarrow> (\<And>s. P s \<Longrightarrow> Q s) \<Longrightarrow> returns Q r"
  by (cases r) auto

lemma same_occupation_refl: "same_occupation N s s"
  by (simp add: same_occupation_def)

lemma same_occupation_trans:
  "same_occupation N s t \<Longrightarrow> same_occupation N t u \<Longrightarrow> same_occupation N s u"
  by (simp add: same_occupation_def)

lemma remember_bonds_Inr:
  "remember_bonds L s a b = Inr s1 \<Longrightarrow> s1 = s\<lparr>bonds := bonds s1, nbonds := nbonds s1\<rparr>"
  by (auto simp: remember_bonds_def Let_def split: option.splits if_splits)

lemma remember_bonds_returns: "returns (\<lambda>s'. True) (remember_bonds L s a b)"
  by (auto simp: remember_bonds_def Let_def split: option.splits if_splits)

lemma wf_bonds [simp]: "wf N (s\<lparr>bonds := b, nbonds := n\<rparr>) ch = wf N s ch"
  by (simp add: wf_def ok_cluster_def)

lemma perc_ok_bonds [simp]: "perc_ok (s\<lparr>bonds := b, nbonds := n\<rparr>) = perc_ok s"
  by (simp add: perc_ok_def contrib_def)

lemma largest_ok_bonds [simp]: "largest_ok (s\<lparr>bonds := b, nbonds := n\<rparr>) = largest_ok s"
  by (simp add: largest_ok_def)

lemma wf_merge_counters [simp]: "wf N (merge_counters s c1 c2) ch = wf N s ch"
  by (simp add: wf_def ok_cluster_def merge_counters_def Let_def)

lemma merge_same_fields [simp]:
  "first (merge_same s c d) = first s" "size_c (merge_same s c d) = size_c s"
  "cluster (merge_same s c d) = cluster s" "next_s (merge_same s c d) = next_s s"
  "vec (merge_same s c d) = vec s" "vacant (merge_same s c d) = vacant s"
  "occupied (merge_same s c d) = occupied s" "largest (merge_same s c d) = largest s"
  "is_wrapping (merge_same s c d) = (is_wrapping s)[c := ivadd (is_wrapping s ! c) (wrap_incr d)]"
  by (simp_all add: merge_same_def Let_def)

lemma nonneg3_wrap_incr: "nonneg3 (wrap_incr d)"
  by (cases d) simp

lemma wf_merge_same:
  assumes "wf N s ch" "c < length (first s)" "ch c \<noteq> []"
  shows "wf N (merge_same s c d) ch"
proof -
  have "ok_cluster (merge_same s c d) ch c'" if "c' < length (first s)" for c'
  proof -
    from assms that have o: "ok_cluster s ch c'" and l: "length (is_wrapping s) = length (first s)"
      by (auto simp: wf_def)
    show ?thesis
    proof (cases "c' = c")
      case True
      with o l assms show ?thesis
        by (simp add: ok_cluster_def nonneg3_ivadd nonneg3_wrap_incr)
    next
      case False
      with o show ?thesis by (simp add: ok_cluster_def)
    qed
  qed
  with assms(1) show ?thesis by (simp add: wf_def)
qed

lemma largest_ok_merge_same: "largest_ok s \<Longrightarrow> largest_ok (merge_same s c d)"
  by (simp add: largest_ok_def)

lemma perc_ok_merge_same:
  assumes p: "perc_ok s" and len: "length (size_c s) = length (first s)"
    "length (is_wrapping s) = length (first s)" and l: "c < length (first s)"
    and nn: "nonneg3 (is_wrapping s ! c)"
  shows "perc_ok (merge_same s c d)"
proof -
  let ?w' = "ivadd (is_wrapping s ! c) (wrap_incr d)"
  have c: "contrib (merge_same s c d) = (contrib s)[c := (if isum3 ?w' > 0 then size_c s ! c else 0)]"
    using map2_update[of "\<lambda>w z. if isum3 w > 0 then z else 0" "is_wrapping s" c ?w' "size_c s" "size_c s ! c"]
    by (simp add: contrib_def)
  have cl: "c < length (contrib s)" using len l by (simp add: contrib_def)
  have n: "contrib s ! c = (if isum3 (is_wrapping s ! c) > 0 then size_c s ! c else 0)"
    using len l by (simp add: contrib_nth)
  have np: "npercolating (merge_same s c d) =
      (if isum3 (is_wrapping s ! c) = 0 \<and> isum3 ?w' > 0 then npercolating s + size_c s ! c
       else npercolating s)"
    using l len by (simp add: merge_same_def Let_def)
  from nonneg3_isum3[OF nn] nonneg3_isum3[OF nonneg3_wrap_incr[of d]]
  show ?thesis
    unfolding perc_ok_def c np using p cl
    by (auto simp: perc_ok_def sum_list_update_int n isum3_ivadd)
qed

lemma merge_clusters_inv:
  assumes inv: "percolator_inv N s" and s1: "site1 < N" and s2: "site2 < N"
    and o1: "0 \<le> cluster s ! site1" and o2: "0 \<le> cluster s ! site2"
  shows "returns (\<lambda>s'. percolator_inv N s' \<and> same_occupation N s s')
           (merge_clusters L s (cluster s ! site1) site1 (cluster s ! site2) site2 T)"
proof (cases "check_special L s site1 site2")
  case False
  with inv show ?thesis by (simp add: merge_clusters_def same_occupation_refl)
next
  case True
  show ?thesis
  proof (cases "remember_bonds L s site1 site2")
    case (Inl e)
    with remember_bonds_returns[of L s site1 site2] True show ?thesis
      by (simp add: merge_clusters_def)
  next
    case (Inr t)
    from remember_bonds_Inr[OF Inr] obtain b n where t: "t = s\<lparr>bonds := b, nbonds := n\<rparr>" by blast
    from inv obtain ch where wf: "wf N s ch" and p: "perc_ok s" and lo: "largest_ok s"
      by (auto simp: percolator_inv_def)
    then have wft: "wf N t ch" and pt: "perc_ok t" and lt: "largest_ok t" by (simp_all add: t)
    have ct: "cluster t = cluster s" by (simp add: t)
    define c1 where "c1 = nat (cluster s ! site1)"
    define c2 where "c2 = nat (cluster s ! site2)"
    from wf s1 s2 o1 o2 have l1: "c1 < length (first t)" and l2: "c2 < length (first t)"
      and m1: "site1 \<in> set (ch c1)" and m2: "site2 \<in> set (ch c2)"
      by (auto simp: wf_def c1_def c2_def t)
    then have n1: "ch c1 \<noteq> []" and n2: "ch c2 \<noteq> []" by auto
    from wft have len: "length (size_c t) = length (first t)" "length (is_wrapping t) = length (first t)"
      and lc: "length (cluster t) = N"
      and okc: "\<And>c. c < length (first t) \<Longrightarrow> ok_cluster t ch c" by (auto simp: wf_def)
    let ?d = "merge_vec L t site1 site2 T"
    show ?thesis
    proof (cases "cluster s ! site1 = cluster s ! site2")
      case same: True
      from okc[OF l1] have nn1: "nonneg3 (is_wrapping t ! c1)" by (simp add: ok_cluster_def)
      have "wf N (merge_same t c1 ?d) ch" by (rule wf_merge_same[OF wft l1 n1])
      moreover have "perc_ok (merge_same t c1 ?d)" by (rule perc_ok_merge_same[OF pt len l1 nn1])
      moreover have "largest_ok (merge_same t c1 ?d)" by (rule largest_ok_merge_same[OF lt])
      ultimately have "percolator_inv N (merge_same t c1 ?d)"
        unfolding percolator_inv_def by blast
      moreover have "same_occupation N s (merge_same t c1 ?d)"
        by (simp add: same_occupation_def ct)
      ultimately show ?thesis using True Inr same
        by (simp add: merge_clusters_def c1_def)
    next
      case diff: False
      with o1 o2 have ne: "c1 \<noteq> c2" by (simp add: c1_def c2_def)
      let ?m = "merge_counters t c1 c2"
      have mf: "first ?m = first t" "cluster ?m = cluster t"
        by (simp_all add: merge_counters_def Let_def)
      have wfm: "wf N ?m ch" using wft by simp
      from merge_diff_Inr[OF wfm, of c2 c1 ?d] l2 n2
      obtain v' cl' where r: "merge_diff ?m c1 c2 ?d
            = Inr (retire (merge_update ?m c1 c2 v' cl' (last (ch c2))) c2)"
        and lv: "length v' = N" "length cl' = N"
        and pc: "\<forall>k<N. cl' ! k = (if k \<in> set (ch c2) then int c1 else cluster t ! k)"
        by (auto simp: mf)
      let ?s' = "retire (merge_update ?m c1 c2 v' cl' (last (ch c2))) c2"
      have "wf N ?s' (ch(c1 := hd (ch c1) # ch c2 @ tl (ch c1), c2 := []))"
        by (rule wf_merge_update_retire[OF wfm ne _ _ n1 n2 lv]) (use l1 l2 pc in \<open>simp_all add: mf\<close>)
      moreover from okc[OF l1] okc[OF l2] n1
      have "nonneg3 (is_wrapping t ! c1)" "nonneg3 (is_wrapping t ! c2)"
        "0 < size_c t ! c1" "0 \<le> size_c t ! c2"
        by (auto simp: ok_cluster_def)
      then have "perc_ok ?s'" "largest_ok ?s'"
        using perc_ok_merge_diff[OF pt len l1 l2 ne] largest_ok_merge_diff[OF lt len l1 l2 ne]
        by simp_all
      ultimately have "percolator_inv N ?s'" by (auto simp: percolator_inv_def)
      moreover have "same_occupation N s ?s'"
        unfolding same_occupation_def
      proof (intro allI impI)
        fix i assume i: "i < N"
        from okc[OF l2] have "\<forall>x \<in> set (ch c2). cluster t ! x = int c2" by (simp add: ok_cluster_def)
        with pc i show "(0 \<le> cluster ?s' ! i) = (0 \<le> cluster s ! i)" by (auto simp: ct)
      qed
      ultimately show ?thesis using True Inr diff r
        by (simp add: merge_clusters_def c1_def c2_def)
    qed
  qed
qed

subsection \<open>The invariant across \<open>add_percolating_site\<close>\<close>

lemma new_cluster_fields [simp]:
  "first (new_cluster s sel site) = first s @ [int site]"
  "size_c (new_cluster s sel site) = size_c s @ [1]"
  "is_wrapping (new_cluster s sel site) = is_wrapping s @ [(0, 0, 0)]"
  "cluster (new_cluster s sel site) = (cluster s)[site := int (length (first s))]"
  "next_s (new_cluster s sel site) = next_s s"
  "vec (new_cluster s sel site) = (vec s)[site := (0, 0, 0)]"
  "vacant (new_cluster s sel site) = take sel (vacant s) @ drop (Suc sel) (vacant s)"
  "occupied (new_cluster s sel site) = occupied s @ [site]"
  "npercolating (new_cluster s sel site) = npercolating s"
  "largest (new_cluster s sel site) = (if largest s < 0 then int (length (first s)) else largest s)"
  by (simp_all add: new_cluster_def Let_def)

lemma wf_new_cluster:
  assumes wf: "wf N s ch" and sel: "sel < length (vacant s)"
  shows "wf N (new_cluster s sel (vacant s ! sel)) (ch(length (first s) := [vacant s ! sel]))"
proof -
  let ?site = "vacant s ! sel"
  let ?n = "length (first s)"
  let ?s' = "new_cluster s sel ?site"
  let ?ch' = "ch(?n := [?site])"
  from wf have len: "length (cluster s) = N" "length (next_s s) = N" "length (vec s) = N"
      "length (size_c s) = length (first s)" "length (is_wrapping s) = length (first s)"
    and okc: "\<And>c. c < length (first s) \<Longrightarrow> ok_cluster s ch c"
    and occ: "\<And>i. i < N \<Longrightarrow> 0 \<le> cluster s ! i \<Longrightarrow>
                nat (cluster s ! i) < length (first s) \<and> i \<in> set (ch (nat (cluster s ! i)))"
    and vac: "\<And>i. i < N \<Longrightarrow> cluster s ! i < 0 \<Longrightarrow> next_s s ! i < 0"
    and dv: "distinct (vacant s)" and vs: "\<forall>i \<in> set (vacant s). i < N \<and> cluster s ! i < 0"
    and cnt: "length (occupied s) + length (vacant s) = N"
    by (auto simp: wf_def)
  from sel vs have sN: "?site < N" and sneg: "cluster s ! ?site < 0" by auto
  have okold: "ok_cluster ?s' ?ch' c" if c: "c < ?n" for c
  proof -
    from okc[OF c] have "\<forall>x \<in> set (ch c). cluster s ! x = int c" by (simp add: ok_cluster_def)
    with sneg have "?site \<notin> set (ch c)" by auto
    then have "\<forall>x \<in> set (ch c). (cluster s)[?site := int ?n] ! x = cluster s ! x"
      by (metis nth_list_update_neq)
    with okc[OF c] c len show ?thesis by (simp add: ok_cluster_def nth_append)
  qed
  have oknew: "ok_cluster ?s' ?ch' ?n"
    using sN len vac[OF sN sneg] by (simp add: ok_cluster_def nth_append)
  have okall: "\<forall>c < length (first ?s'). ok_cluster ?s' ?ch' c"
    using okold oknew by (auto simp: less_Suc_eq)
  have occ': "nat (cluster ?s' ! i) < length (first ?s') \<and> i \<in> set (?ch' (nat (cluster ?s' ! i)))"
    if i: "i < N" and nn: "0 \<le> cluster ?s' ! i" for i
  proof (cases "i = ?site")
    case True
    with sN len show ?thesis by simp
  next
    case False
    with nn have "0 \<le> cluster s ! i" by simp
    from occ[OF i this] False show ?thesis by auto
  qed
  have vac': "next_s ?s' ! i < 0" if i: "i < N" and neg: "cluster ?s' ! i < 0" for i
  proof -
    from neg sN len have "i \<noteq> ?site" by auto
    with neg vac[OF i] show ?thesis by simp
  qed
  have dv': "distinct (vacant ?s')"
    using dv by (simp add: set_take_disj_set_drop_if_distinct)
  have nin: "?site \<notin> set (vacant ?s')"
  proof -
    from dv sel have "vacant s = take sel (vacant s) @ ?site # drop (Suc sel) (vacant s)"
      by (simp add: id_take_nth_drop)
    with dv have "distinct (take sel (vacant s) @ ?site # drop (Suc sel) (vacant s))" by simp
    then show ?thesis by auto
  qed
  have vs': "\<forall>i \<in> set (vacant ?s'). i < N \<and> cluster ?s' ! i < 0"
  proof
    fix i assume a: "i \<in> set (vacant ?s')"
    then have "i \<in> set (vacant s)" by (auto dest: in_set_takeD in_set_dropD)
    moreover from a nin have "i \<noteq> ?site" by auto
    ultimately show "i < N \<and> cluster ?s' ! i < 0" using vs by simp
  qed
  have cnt': "length (occupied ?s') + length (vacant ?s') = N"
    using cnt sel by simp
  show ?thesis
    unfolding wf_def using len okall occ' vac' dv' vs' cnt' by simp
qed

lemma perc_ok_new_cluster:
  "perc_ok s \<Longrightarrow> length (is_wrapping s) = length (size_c s) \<Longrightarrow> perc_ok (new_cluster s sel site)"
  by (simp add: perc_ok_def contrib_def)

lemma largest_ok_new_cluster:
  assumes "largest_ok s" "length (size_c s) = length (first s)"
  shows "largest_ok (new_cluster s sel site)"
proof (cases "first s = []")
  case True
  with assms show ?thesis by (simp add: largest_ok_def)
next
  case False
  with assms show ?thesis
    by (auto simp: largest_ok_def nth_append less_Suc_eq)
qed

lemma new_cluster_inv:
  assumes "percolator_inv N s" "sel < length (vacant s)"
  shows "percolator_inv N (new_cluster s sel (vacant s ! sel))"
proof -
  from assms(1) obtain ch where wf: "wf N s ch" and p: "perc_ok s" and l: "largest_ok s"
    by (auto simp: percolator_inv_def)
  from wf have len: "length (size_c s) = length (first s)" "length (is_wrapping s) = length (size_c s)"
    by (auto simp: wf_def)
  from wf_new_cluster[OF wf assms(2)] perc_ok_new_cluster[OF p len(2)]
    largest_ok_new_cluster[OF l len(1)]
  show ?thesis unfolding percolator_inv_def by blast
qed

lemma new_cluster_occupied:
  assumes "percolator_inv N s" "sel < length (vacant s)"
  shows "vacant s ! sel < N \<and> 0 \<le> cluster (new_cluster s sel (vacant s ! sel)) ! (vacant s ! sel)"
  using assms by (auto simp: percolator_inv_def wf_def)

lemma next_nearest_loop_inv:
  assumes L: "lattice_ok L" and nb: "nb < nsites L"
  shows "percolator_inv (nsites L) s \<Longrightarrow> 0 \<le> cluster s ! nb \<Longrightarrow>
         \<forall>j \<in> set js. j < length (nn L ! nb) \<Longrightarrow>
         returns (\<lambda>s'. percolator_inv (nsites L) s' \<and> same_occupation (nsites L) s s')
           (next_nearest_loop L nb js s)"
proof (induction js arbitrary: s)
  case Nil
  then show ?case by (simp add: same_occupation_refl)
next
  case (Cons j js)
  let ?nb2 = "nn L ! nb ! j"
  from L nb Cons.prems(3) have n2: "?nb2 < nsites L" by (auto simp: lattice_ok_def)
  show ?case
  proof (cases "0 \<le> cluster s ! ?nb2")
    case False
    with Cons show ?thesis by (simp add: Let_def)
  next
    case True
    have "returns (\<lambda>s'. percolator_inv (nsites L) s' \<and> same_occupation (nsites L) s s')
       (case merge_clusters L s (cluster s ! ?nb2) ?nb2 (cluster s ! nb) nb (ivneg (T_vectors L ! nb ! j)) of
          Inl e \<Rightarrow> Inl e | Inr s' \<Rightarrow> next_nearest_loop L nb js s')"
    proof (rule returns_bind[OF merge_clusters_inv[OF Cons.prems(1) n2 nb True Cons.prems(2)]])
      fix s' assume "percolator_inv (nsites L) s' \<and> same_occupation (nsites L) s s'"
      then have i: "percolator_inv (nsites L) s'" and o: "same_occupation (nsites L) s s'" by auto
      from o nb Cons.prems(2) have "0 \<le> cluster s' ! nb" by (simp add: same_occupation_def)
      from Cons.IH[OF i this] Cons.prems(3)
      show "returns (\<lambda>s''. percolator_inv (nsites L) s'' \<and> same_occupation (nsites L) s s'')
              (next_nearest_loop L nb js s')"
        by (auto intro: returns_mono same_occupation_trans[OF o])
    qed
    with True show ?thesis by (simp add: Let_def)
  qed
qed

lemma neighbor_loop_inv:
  assumes L: "lattice_ok L" and st: "site < nsites L"
  shows "percolator_inv (nsites L) s \<Longrightarrow> 0 \<le> cluster s ! site \<Longrightarrow>
         \<forall>i \<in> set is. i < length (nn L ! site) \<Longrightarrow>
         returns (\<lambda>s'. percolator_inv (nsites L) s' \<and> same_occupation (nsites L) s s')
           (neighbor_loop L site is s)"
proof (induction "is" arbitrary: s)
  case Nil
  then show ?case by (simp add: same_occupation_refl)
next
  case (Cons i "is")
  let ?nb = "nn L ! site ! i"
  let ?P = "\<lambda>t s'. percolator_inv (nsites L) s' \<and> same_occupation (nsites L) t s'"
  from L st Cons.prems(3) have nb: "?nb < nsites L" by (auto simp: lattice_ok_def)
  have rest: "returns (?P s) (neighbor_loop L site is t)" if "?P s t" for t
  proof -
    from that have i: "percolator_inv (nsites L) t" and o: "same_occupation (nsites L) s t" by auto
    from o st Cons.prems(2) have "0 \<le> cluster t ! site" by (simp add: same_occupation_def)
    from Cons.IH[OF i this] Cons.prems(3) show ?thesis
      by (auto intro: returns_mono same_occupation_trans[OF o])
  qed
  show ?case
  proof (cases "0 \<le> cluster s ! ?nb")
    case False
    with rest[of s] Cons.prems(1) show ?thesis by (simp add: Let_def same_occupation_refl)
  next
    case True
    have "returns (?P s)
       (case merge_clusters L s (cluster s ! ?nb) ?nb (cluster s ! site) site (ivneg (T_vectors L ! site ! i)) of
          Inl e \<Rightarrow> Inl e
        | Inr s' \<Rightarrow>
            if \<not> special s' then neighbor_loop L site is s'
            else (case next_nearest_loop L ?nb [0 ..< length (nn L ! ?nb)] s' of
                    Inl e \<Rightarrow> Inl e
                  | Inr s'' \<Rightarrow> neighbor_loop L site is s''))"
    proof (rule returns_bind[OF merge_clusters_inv[OF Cons.prems(1) nb st True Cons.prems(2)]])
      fix s' assume a: "?P s s'"
      then have i: "percolator_inv (nsites L) s'" and o: "same_occupation (nsites L) s s'" by auto
      from o nb True have onb: "0 \<le> cluster s' ! ?nb" by (simp add: same_occupation_def)
      have "returns (?P s)
              (case next_nearest_loop L ?nb [0 ..< length (nn L ! ?nb)] s' of
                    Inl e \<Rightarrow> Inl e
                  | Inr s'' \<Rightarrow> neighbor_loop L site is s'')"
      proof (rule returns_bind[OF next_nearest_loop_inv[OF L nb i onb]])
        show "\<forall>j \<in> set [0 ..< length (nn L ! ?nb)]. j < length (nn L ! ?nb)" by simp
      next
        fix s'' assume "?P s' s''"
        with o have "?P s s''" by (auto intro: same_occupation_trans)
        then show "returns (?P s) (neighbor_loop L site is s'')" by (rule rest)
      qed
      with rest[OF a]
      show "returns (?P s)
            (if \<not> special s' then neighbor_loop L site is s'
            else (case next_nearest_loop L ?nb [0 ..< length (nn L ! ?nb)] s' of
                    Inl e \<Rightarrow> Inl e
                  | Inr s'' \<Rightarrow> neighbor_loop L site is s''))"
        by simp
    qed
    with True show ?thesis by (simp add: Let_def)
  qed
qed

lemma index_py_Some: "index_py xs y = Some k \<Longrightarrow> k < length xs \<and> xs ! k = y"
  by (induction xs arbitrary: k) (auto split: if_splits)

lemma add_percolating_site_inv:
  assumes L: "lattice_ok L" and inv: "percolator_inv (nsites L) s"
  shows "returns (percolator_inv (nsites L)) (add_percolating_site L site rnd s)"
proof -
  have step: "returns (percolator_inv (nsites L))
      (neighbor_loop L (vacant s ! sel) [0 ..< length (nn L ! (vacant s ! sel))]
         (new_cluster s sel (vacant s ! sel)))" if sel: "sel < length (vacant s)" for sel
  proof -
    from new_cluster_occupied[OF inv sel]
    have a: "vacant s ! sel < nsites L"
      and b: "0 \<le> cluster (new_cluster s sel (vacant s ! sel)) ! (vacant s ! sel)" by auto
    from neighbor_loop_inv[OF L a new_cluster_inv[OF inv sel] b, of "[0 ..< length (nn L ! (vacant s ! sel))]"]
    show ?thesis by (auto intro: returns_mono)
  qed
  show ?thesis
  proof (cases "num_vacant s \<le> 0")
    case True
    with inv show ?thesis by (simp add: add_percolating_site_def)
  next
    case False
    then have ne: "length (vacant s) > 0" by (simp add: num_vacant_def)
    show ?thesis
    proof (cases "site = None \<or> site = Some 0")
      case True
      from ne have "rnd mod length (vacant s) < length (vacant s)" by simp
      from step[OF this] True False show ?thesis
        by (simp add: add_percolating_site_def Let_def num_vacant_def)
    next
      case n0: False
      then obtain k where k: "site = Some k" "k \<noteq> 0" by (cases site) auto
      show ?thesis
      proof (cases "index_py (map int (vacant s)) k")
        case None
        with k False show ?thesis by (simp add: add_percolating_site_def)
      next
        case (Some sel)
        from index_py_Some[OF Some] have sel: "sel < length (vacant s)"
          and e: "nat k = vacant s ! sel" by auto
        from step[OF sel] Some k False e show ?thesis
          by (simp add: add_percolating_site_def Let_def)
      qed
    qed
  qed
qed

lemma run_inv:
  assumes L: "lattice_ok L"
  shows "percolator_inv (nsites L) s \<Longrightarrow> returns (percolator_inv (nsites L)) (run L ops s)"
proof (induction ops arbitrary: s)
  case Nil
  then show ?case by simp
next
  case (Cons op ops)
  obtain site rnd where op: "op = (site, rnd)" by (cases op)
  show ?case
    unfolding op run.simps
    by (rule returns_bind[OF add_percolating_site_inv[OF L Cons.prems]]) (rule Cons.IH)
qed

lemma reset_inv: "percolator_inv (nsites L) (reset L s)"
proof -
  have "wf (nsites L) (reset L s) (\<lambda>c. [])"
    by (simp add: wf_def reset_def)
  moreover have "perc_ok (reset L s)" by (simp add: perc_ok_def contrib_def reset_def)
  moreover have "largest_ok (reset L s)" by (simp add: largest_ok_def reset_def)
  ultimately show ?thesis unfolding percolator_inv_def by blast
qed

lemma start_inv: "percolator_inv (nsites L) (start L r)"
  by (simp add: start_def reset_inv)

lemma run_start_inv:
  "lattice_ok L \<Longrightarrow> returns (percolator_inv (nsites L)) (run L ops (start L r))"
  by (rule run_inv[OF _ start_inv])

subsection \<open>The common-neighbour rule\<close>

text \<open>
  The loop answers \<open>True\<close> exactly when there is a common neighbour at all and
  the occupied ones reach the threshold.
\<close>

lemma new_special_loop_eq:
  "new_special_loop cl k occ xs =
     (xs \<noteq> [] \<and> k \<le> occ + int (length (filter (\<lambda>n. cl ! n \<ge> 0) xs)))"
  by (induction xs arbitrary: occ) (auto simp: Let_def)

text \<open>
  Claim C4. With threshold 0 the installed predicate is to hold for every
  pair. On the periodic chain of four sites the neighbours 0 and 1 have no
  common neighbour, the loop body never runs, and the predicate answers
  \<open>False\<close>.
\<close>

theorem new_special_zero_no_common:
  "get_common_neighbors (chain_lattice 4) 0 1 = [] \<and>
   new_special (chain_lattice 4) 0 (set_special_percolation_rule 0 (init (chain_lattice 4))) 0 1 = False"
  by code_simp

subsection \<open>Calling \<open>_merge_clusters\<close> twice\<close>

lemma check_special_same_occupation:
  assumes "lattice_ok L" "site1 < nsites L" "same_occupation (nsites L) s s'"
    "num_common s' = num_common s"
  shows "check_special L s' site1 site2 = check_special L s site1 site2"
proof -
  have "(0 \<le> cluster s' ! n) = (0 \<le> cluster s ! n)" if "n \<in> set (get_common_neighbors L site1 site2)" for n
  proof -
    from that have "n \<in> set (nn L ! site1)" by (simp add: get_common_neighbors_def)
    with assms(1,2) have "n < nsites L" by (auto simp: lattice_ok_def)
    with assms(3) show ?thesis by (simp add: same_occupation_def)
  qed
  then have "filter (\<lambda>n. 0 \<le> cluster s' ! n) (get_common_neighbors L site1 site2)
       = filter (\<lambda>n. 0 \<le> cluster s ! n) (get_common_neighbors L site1 site2)"
    by (intro filter_cong) auto
  then show ?thesis
    by (simp add: check_special_def new_special_def new_special_loop_eq assms(4) split: option.splits)
qed

lemma remember_bonds_marked:
  "remember_bonds L t a b = Inr t \<longleftrightarrow>
     (\<exists>nb1. index_py (nn L ! a) b = Some nb1 \<and> nb1 < length (bonds t ! a) \<and> bonds t ! a ! nb1)"
proof -
  have "t\<lparr>bonds := x, nbonds := nbonds t + 1\<rparr> \<noteq> t" for x
  proof
    assume "t\<lparr>bonds := x, nbonds := nbonds t + 1\<rparr> = t"
    then have "nbonds (t\<lparr>bonds := x, nbonds := nbonds t + 1\<rparr>) = nbonds t" by simp
    then show False by simp
  qed
  then show ?thesis
    by (auto simp: remember_bonds_def Let_def split: option.splits)
qed

lemma remember_bonds_idem:
  assumes "remember_bonds L s a b = Inr t" "a < length (bonds s)" "b < length (bonds s)"
  shows "remember_bonds L t a b = Inr t"
proof -
  from assms(1) obtain nb1 where i: "index_py (nn L ! a) b = Some nb1"
    and l: "nb1 < length (bonds s ! a)"
    by (auto simp: remember_bonds_def Let_def split: option.splits if_splits)
  show ?thesis
  proof (cases "bonds s ! a ! nb1")
    case True
    with assms(1) i l have "t = s" by (simp add: remember_bonds_def)
    with True i l show ?thesis by (simp add: remember_bonds_marked)
  next
    case False
    with assms(1) i l obtain nb2 where
      t: "t = s\<lparr>bonds := ((bonds s)[a := (bonds s ! a)[nb1 := True]])
                  [b := (((bonds s)[a := (bonds s ! a)[nb1 := True]]) ! b)[nb2 := True]],
               nbonds := nbonds s + 1\<rparr>"
      by (auto simp: remember_bonds_def Let_def split: option.splits if_splits)
    have "nb1 < length (bonds t ! a) \<and> bonds t ! a ! nb1"
      using assms(2,3) l unfolding t by (cases "a = b"; cases "nb1 = nb2") simp_all
    with i show ?thesis by (auto simp: remember_bonds_marked)
  qed
qed

lemma ivadd_zero: "ivadd w (0, 0, 0) = w"
  by (cases w) simp

lemma merge_same_id: "wrap_incr d = (0, 0, 0) \<Longrightarrow> merge_same t c d = t"
  by (simp add: merge_same_def Let_def ivadd_zero)

lemma merge_vec_after:
  assumes "vec s' ! site1 = vec t ! site1"
    "vec s' ! site2 = vadd (vec t ! site2) (merge_vec L t site1 site2 T)"
  shows "merge_vec L s' site1 site2 T = (0, 0, 0)"
  using assms
  by (cases "vec t ! site1"; cases "vec t ! site2"; cases "coo L ! site1"; cases "coo L ! site2"; cases T)
    (simp add: merge_vec_def Let_def)

lemma wrap_incr_pos: "wrap_incr d \<noteq> (0, 0, 0) \<Longrightarrow> 0 < isum3 (wrap_incr d)"
  by (cases d) (auto split: if_splits)

lemma merge_same_npaths: "npaths (merge_same s c d) = npaths s + isum3 (wrap_incr d)"
  by (simp add: merge_same_def Let_def)

lemma merge_same_nbonds: "nbonds (merge_same s c d) = nbonds s"
  by (simp add: merge_same_def Let_def)

text \<open>
  Claim C7. In a state that satisfies the invariant, let a call of
  \<open>_merge_clusters\<close> for two occupied sites return. Then the same call again
  (with the cluster IDs the sites have by then) returns and leaves \<open>nbonds\<close> as
  it is, because the bond is marked. It leaves the whole state as it is exactly
  when the bond predicate rejected the pair, or the first call found the sites
  in two different clusters, or no component of \<open>vec\<close> exceeded 1/2. In the
  remaining case, a bond that closes a wrapping path inside one cluster, the
  repeated call counts the path again: \<open>npaths\<close> and the wrapping counters of
  the cluster grow by the increment of the first call. The attribute list
  describes \<open>_npaths\<close> as the total number of percolation paths and
  \<open>_is_wrapping\<close> as the number of times a cluster wraps; unlike \<open>nbonds\<close>, which
  the bond flag guards, they have no guard against a second count. With a
  common-neighbour rule \<open>add_percolating_site\<close> itself repeats the call, for
  the same bond from its other end, in the loop over the neighbours of a
  neighbour: on the periodic chain of three sites the rule counts two paths
  where the default rule counts one, with the same bonds and the same cluster.
\<close>

theorem merge_clusters_again:
  assumes L: "lattice_ok L" and inv: "percolator_inv (nsites L) s"
    and lb: "length (bonds s) = nsites L"
    and s1: "site1 < nsites L" and s2: "site2 < nsites L"
    and o1: "0 \<le> cluster s ! site1" and o2: "0 \<le> cluster s ! site2"
    and call: "merge_clusters L s (cluster s ! site1) site1 (cluster s ! site2) site2 T = Inr s'"
  shows "\<exists>s''. merge_clusters L s' (cluster s' ! site1) site1 (cluster s' ! site2) site2 T = Inr s'' \<and>
           nbonds s'' = nbonds s' \<and>
           (s'' = s' \<longleftrightarrow>
              \<not> check_special L s site1 site2 \<or> cluster s ! site1 \<noteq> cluster s ! site2 \<or>
              wrap_incr (merge_vec L s site1 site2 T) = (0, 0, 0)) \<and>
           (check_special L s site1 site2 \<and> cluster s ! site1 = cluster s ! site2 \<longrightarrow>
              npaths s'' = npaths s' + isum3 (wrap_incr (merge_vec L s site1 site2 T)) \<and>
              is_wrapping s'' ! nat (cluster s ! site1) =
                ivadd (is_wrapping s' ! nat (cluster s ! site1))
                  (wrap_incr (merge_vec L s site1 site2 T)))"
proof (cases "check_special L s site1 site2")
  case False
  with call have "s' = s" by (simp add: merge_clusters_def)
  with False show ?thesis by (simp add: merge_clusters_def)
next
  case True
  let ?N = "nsites L"
  from merge_clusters_inv[OF inv s1 s2 o1 o2, of L T] call
  have so: "same_occupation ?N s s'" by simp
  from merge_clusters_frame[OF call] have nc: "num_common s' = num_common s"
    by (simp add: frame_eq_def)
  from check_special_same_occupation[OF L s1 so nc] True
  have chk': "check_special L s' site1 site2" by simp
  from call True obtain t where rb: "remember_bonds L s site1 site2 = Inr t"
    by (auto simp: merge_clusters_def split: sum.splits)
  from remember_bonds_Inr[OF rb] obtain b n where t: "t = s\<lparr>bonds := b, nbonds := n\<rparr>" by blast
  from remember_bonds_idem[OF rb] s1 s2 lb have rbt: "remember_bonds L t site1 site2 = Inr t" by simp
  have ct: "cluster t = cluster s" "vec t = vec s" by (simp_all add: t)
  have mv: "merge_vec L t site1 site2 T = merge_vec L s site1 site2 T"
    by (simp add: merge_vec_def ct)
  from inv obtain ch where wf: "wf ?N s ch" by (auto simp: percolator_inv_def)
  show ?thesis
  proof (cases "cluster s ! site1 = cluster s ! site2")
    case same: True
    let ?c = "nat (cluster s ! site1)"
    let ?d = "merge_vec L s site1 site2 T"
    from call True rb same have s': "s' = merge_same t ?c ?d"
      by (simp add: merge_clusters_def mv)
    have bs: "bonds s' = bonds t" by (simp add: s' merge_same_def Let_def)
    from rbt bs have rb': "remember_bonds L s' site1 site2 = Inr s'"
      by (simp add: remember_bonds_marked)
    have cs: "cluster s' = cluster s" "vec s' = vec s" by (simp_all add: s' ct)
    have mv': "merge_vec L s' site1 site2 T = ?d" by (simp add: merge_vec_def cs)
    have second: "merge_clusters L s' (cluster s' ! site1) site1 (cluster s' ! site2) site2 T
        = Inr (merge_same s' ?c ?d)"
      using chk' rb' same by (simp add: merge_clusters_def cs mv')
    have nb: "nbonds (merge_same s' ?c ?d) = nbonds s'" by (rule merge_same_nbonds)
    have np: "npaths (merge_same s' ?c ?d) = npaths s' + isum3 (wrap_incr ?d)"
      by (rule merge_same_npaths)
    from wf s1 o1 have "?c < length (is_wrapping s)" by (auto simp: wf_def)
    then have lc: "?c < length (is_wrapping s')" by (simp add: s' t)
    then have iw: "is_wrapping (merge_same s' ?c ?d) ! ?c = ivadd (is_wrapping s' ! ?c) (wrap_incr ?d)"
      by simp
    have eq: "merge_same s' ?c ?d = s' \<longleftrightarrow> wrap_incr ?d = (0, 0, 0)"
    proof
      assume a: "merge_same s' ?c ?d = s'"
      show "wrap_incr ?d = (0, 0, 0)"
      proof (rule ccontr)
        assume "wrap_incr ?d \<noteq> (0, 0, 0)"
        from wrap_incr_pos[OF this] np have "npaths (merge_same s' ?c ?d) \<noteq> npaths s'" by simp
        with a show False by simp
      qed
    next
      assume "wrap_incr ?d = (0, 0, 0)"
      then show "merge_same s' ?c ?d = s'" by (rule merge_same_id)
    qed
    from second nb np iw eq True same show ?thesis by simp
  next
    case diff: False
    then have wft: "wf ?N t ch" using wf by (simp add: t)
    define c1 where "c1 = nat (cluster s ! site1)"
    define c2 where "c2 = nat (cluster s ! site2)"
    from o1 o2 diff have ne: "c1 \<noteq> c2" by (simp add: c1_def c2_def)
    from wf s1 s2 o1 o2 have l1: "c1 < length (first t)" and l2: "c2 < length (first t)"
      and m1: "site1 \<in> set (ch c1)" and m2: "site2 \<in> set (ch c2)"
      by (auto simp: wf_def c1_def c2_def t)
    from wft have okc: "\<And>c. c < length (first t) \<Longrightarrow> ok_cluster t ch c" by (auto simp: wf_def)
    have n12: "site1 \<notin> set (ch c2)"
    proof
      assume "site1 \<in> set (ch c2)"
      with okc[OF l2] have "cluster t ! site1 = int c2" by (simp add: ok_cluster_def)
      with o1 ne show False by (simp add: ct c1_def)
    qed
    let ?d = "merge_vec L t site1 site2 T"
    let ?m = "merge_counters t c1 c2"
    have mf: "first ?m = first t" "cluster ?m = cluster t" "vec ?m = vec t" "bonds ?m = bonds t"
      by (simp_all add: merge_counters_def Let_def)
    have wfm: "wf ?N ?m ch" using wft by simp
    from n12 m2 have n2: "ch c2 \<noteq> []" by auto
    from merge_diff_Inr[OF wfm, of c2 c1 ?d] l2 n2
    obtain v' cl' where r: "merge_diff ?m c1 c2 ?d
          = Inr (retire (merge_update ?m c1 c2 v' cl' (last (ch c2))) c2)"
      and pc: "\<forall>k<?N. cl' ! k = (if k \<in> set (ch c2) then int c1 else cluster t ! k)"
      and pv: "\<forall>k<?N. v' ! k = (if k \<in> set (ch c2) then vadd (vec t ! k) ?d else vec t ! k)"
      by (auto simp: mf)
    from call True rb diff r have s': "s' = retire (merge_update ?m c1 c2 v' cl' (last (ch c2))) c2"
      by (simp add: merge_clusters_def c1_def c2_def)
    have cl1: "cluster s' ! site1 = int c1" using pc s1 n12 o1 by (simp add: s' ct c1_def)
    have cl2: "cluster s' ! site2 = int c1" using pc s2 m2 by (simp add: s')
    have v1: "vec s' ! site1 = vec t ! site1" using pv s1 n12 by (simp add: s')
    have v2: "vec s' ! site2 = vadd (vec t ! site2) ?d" using pv s2 m2 by (simp add: s')
    have d0: "merge_vec L s' site1 site2 T = (0, 0, 0)" by (rule merge_vec_after[OF v1 v2])
    have bs: "bonds s' = bonds t"
      by (simp add: s' retire_def merge_update_def Let_def mf)
    from rbt bs have rb': "remember_bonds L s' site1 site2 = Inr s'"
      by (simp add: remember_bonds_marked)
    have "merge_clusters L s' (cluster s' ! site1) site1 (cluster s' ! site2) site2 T = Inr s'"
      using chk' rb' cl1 cl2 d0 by (simp add: merge_clusters_def merge_same_id)
    with diff show ?thesis by simp
  qed
qed

theorem merge_clusters_again_witness:
  "(let L = chain_lattice 4;
        s3 = projr (run L [(None, 0), (Some 1, 0), (Some 2, 0)] (start L None));
        pre = projr (neighbor_loop L 3 [0] (new_cluster s3 0 3));
        t = projr (merge_clusters L pre (cluster pre ! 0) 0 (cluster pre ! 3) 3 (- 1, 0, 0));
        u = projr (merge_clusters L t (cluster t ! 0) 0 (cluster t ! 3) 3 (- 1, 0, 0))
    in run L [(None, 0), (Some 1, 0), (Some 2, 0), (Some 3, 0)] (start L None) = Inr t \<and>
       merge_clusters L pre (cluster pre ! 0) 0 (cluster pre ! 3) 3 (- 1, 0, 0) = Inr t \<and>
       merge_clusters L t (cluster t ! 0) 0 (cluster t ! 3) 3 (- 1, 0, 0) = Inr u \<and>
       u \<noteq> t \<and> nbonds u = nbonds t \<and>
       is_wrapping t = [(1, 0, 0)] \<and> npaths t = 1 \<and> npercolating t = 4 \<and>
       is_wrapping u = [(2, 0, 0)] \<and> npaths u = 2) \<and>
   (let R = chain_lattice 3;
        a = projr (run R [(None, 0), (Some 1, 0), (Some 2, 0)] (start R None));
        b = projr (run R [(None, 0), (Some 1, 0), (Some 2, 0)] (start R (Some 1)))
    in run R [(None, 0), (Some 1, 0), (Some 2, 0)] (start R None) = Inr a \<and>
       run R [(None, 0), (Some 1, 0), (Some 2, 0)] (start R (Some 1)) = Inr b \<and>
       npaths a = 1 \<and> is_wrapping a = [(1, 0, 0)] \<and>
       npaths b = 2 \<and> is_wrapping b = [(2, 0, 0)] \<and>
       nbonds a = 3 \<and> nbonds b = 3 \<and> bonds a = bonds b \<and> cluster a = cluster b)"
proof -
  define L where "L = chain_lattice 4"
  define s3 where "s3 = projr (run L [(None, 0), (Some 1, 0), (Some 2, 0)] (start L None))"
  define pre where "pre = projr (neighbor_loop L 3 [0] (new_cluster s3 0 3))"
  define t where "t = projr (merge_clusters L pre (cluster pre ! 0) 0 (cluster pre ! 3) 3 (- 1, 0, 0))"
  define u where "u = projr (merge_clusters L t (cluster t ! 0) 0 (cluster t ! 3) 3 (- 1, 0, 0))"
  define R where "R = chain_lattice 3"
  define a where "a = projr (run R [(None, 0), (Some 1, 0), (Some 2, 0)] (start R None))"
  define b where "b = projr (run R [(None, 0), (Some 1, 0), (Some 2, 0)] (start R (Some 1)))"
  have "(let L = chain_lattice 4;
        s3 = projr (run L [(None, 0), (Some 1, 0), (Some 2, 0)] (start L None));
        pre = projr (neighbor_loop L 3 [0] (new_cluster s3 0 3));
        t = projr (merge_clusters L pre (cluster pre ! 0) 0 (cluster pre ! 3) 3 (- 1, 0, 0));
        u = projr (merge_clusters L t (cluster t ! 0) 0 (cluster t ! 3) 3 (- 1, 0, 0))
    in (run L [(None, 0), (Some 1, 0), (Some 2, 0)] (start L None) = Inr s3 \<and>
        0 < length (vacant s3) \<and> vacant s3 ! 0 = 3 \<and>
        0 \<le> cluster (new_cluster s3 0 3) ! 3 \<and> 0 < length (nn L ! 3) \<and>
        neighbor_loop L 3 [0] (new_cluster s3 0 3) = Inr pre \<and>
        nsites L = 4 \<and> length (bonds pre) = 4 \<and>
        0 \<le> cluster pre ! 0 \<and> 0 \<le> cluster pre ! 3) \<and>
       (merge_clusters L pre (cluster pre ! 0) 0 (cluster pre ! 3) 3 (- 1, 0, 0) = Inr t \<and>
        merge_clusters L t (cluster t ! 0) 0 (cluster t ! 3) 3 (- 1, 0, 0) = Inr u \<and>
        run L [(None, 0), (Some 1, 0), (Some 2, 0), (Some 3, 0)] (start L None) = Inr t \<and>
        check_special L pre 0 3 \<and> cluster pre ! 0 = cluster pre ! 3 \<and>
        wrap_incr (merge_vec L pre 0 3 (- 1, 0, 0)) = (1, 0, 0)) \<and>
       (is_wrapping t = [(1, 0, 0)] \<and> npaths t = 1 \<and> npercolating t = 4 \<and>
        is_wrapping u = [(2, 0, 0)]))"
    by code_simp
  note ev = this[unfolded Let_def, folded L_def, folded s3_def, folded pre_def, folded t_def,
      folded u_def]
  from ev have e3: "run L [(None, 0), (Some 1, 0), (Some 2, 0)] (start L None) = Inr s3"
    and v: "0 < length (vacant s3)" "vacant s3 ! 0 = 3"
    and oc: "0 \<le> cluster (new_cluster s3 0 3) ! 3" and sl: "0 < length (nn L ! 3)"
    and enl: "neighbor_loop L 3 [0] (new_cluster s3 0 3) = Inr pre"
    and N: "nsites L = 4" and lb: "length (bonds pre) = 4"
    and o: "0 \<le> cluster pre ! 0" "0 \<le> cluster pre ! 3"
    by blast+
  from ev have call: "merge_clusters L pre (cluster pre ! 0) 0 (cluster pre ! 3) 3 (- 1, 0, 0) = Inr t"
    and second: "merge_clusters L t (cluster t ! 0) 0 (cluster t ! 3) 3 (- 1, 0, 0) = Inr u"
    and full: "run L [(None, 0), (Some 1, 0), (Some 2, 0), (Some 3, 0)] (start L None) = Inr t"
    and chk: "check_special L pre 0 3" and same: "cluster pre ! 0 = cluster pre ! 3"
    and wi: "wrap_incr (merge_vec L pre 0 3 (- 1, 0, 0)) = (1, 0, 0)"
    by blast+
  from ev have vt: "is_wrapping t = [(1, 0, 0)]" "npaths t = 1" "npercolating t = 4"
    and vu: "is_wrapping u = [(2, 0, 0)]"
    by blast+
  have ok: "lattice_ok L" unfolding L_def using chain_lattice_ok[of 3] by (simp add: eval_nat_numeral)
  from run_start_inv[OF ok, of "[(None, 0), (Some 1, 0), (Some 2, 0)]" None]
  have i3: "percolator_inv (nsites L) s3" unfolding e3 by (simp only: returns_Inr)
  from new_cluster_inv[OF i3 v(1)] have inc: "percolator_inv (nsites L) (new_cluster s3 0 3)"
    unfolding v(2) .
  have s3N: "3 < nsites L" unfolding N by simp
  have sl': "\<forall>i \<in> set [0::nat]. i < length (nn L ! 3)" using sl by simp
  from neighbor_loop_inv[OF ok s3N inc oc sl']
  have inv: "percolator_inv (nsites L) pre" unfolding enl by (simp only: returns_Inr)
  have lb': "length (bonds pre) = nsites L" unfolding N by (rule lb)
  have s0N: "0 < nsites L" unfolding N by simp
  from merge_clusters_again[OF ok inv lb' s0N s3N o call]
  obtain s'' where s'': "merge_clusters L t (cluster t ! 0) 0 (cluster t ! 3) 3 (- 1, 0, 0) = Inr s''"
    "nbonds s'' = nbonds t"
    "s'' = t \<longleftrightarrow> \<not> check_special L pre 0 3 \<or> cluster pre ! 0 \<noteq> cluster pre ! 3 \<or>
              wrap_incr (merge_vec L pre 0 3 (- 1, 0, 0)) = (0, 0, 0)"
    "check_special L pre 0 3 \<and> cluster pre ! 0 = cluster pre ! 3 \<longrightarrow>
       npaths s'' = npaths t + isum3 (wrap_incr (merge_vec L pre 0 3 (- 1, 0, 0)))"
    by blast
  from s''(1) have su: "s'' = u" unfolding second by simp
  from s''(3) chk same have ne: "u \<noteq> t" unfolding su wi by simp
  from s''(2) have nb: "nbonds u = nbonds t" unfolding su .
  from s''(4) chk same have nu: "npaths u = 2" unfolding su wi vt(2) by simp
  have "(let R = chain_lattice 3;
        a = projr (run R [(None, 0), (Some 1, 0), (Some 2, 0)] (start R None));
        b = projr (run R [(None, 0), (Some 1, 0), (Some 2, 0)] (start R (Some 1)))
    in run R [(None, 0), (Some 1, 0), (Some 2, 0)] (start R None) = Inr a \<and>
       run R [(None, 0), (Some 1, 0), (Some 2, 0)] (start R (Some 1)) = Inr b \<and>
       npaths a = 1 \<and> is_wrapping a = [(1, 0, 0)] \<and>
       npaths b = 2 \<and> is_wrapping b = [(2, 0, 0)] \<and>
       nbonds a = 3 \<and> nbonds b = 3 \<and> bonds a = bonds b \<and> cluster a = cluster b)"
    by code_simp
  note ring = this
  have chain: "run L [(None, 0), (Some 1, 0), (Some 2, 0), (Some 3, 0)] (start L None) = Inr t \<and>
       merge_clusters L pre (cluster pre ! 0) 0 (cluster pre ! 3) 3 (- 1, 0, 0) = Inr t \<and>
       merge_clusters L t (cluster t ! 0) 0 (cluster t ! 3) 3 (- 1, 0, 0) = Inr u \<and>
       u \<noteq> t \<and> nbonds u = nbonds t \<and>
       is_wrapping t = [(1, 0, 0)] \<and> npaths t = 1 \<and> npercolating t = 4 \<and>
       is_wrapping u = [(2, 0, 0)] \<and> npaths u = 2"
    using full call second ne nb vt vu nu by blast
  note chain' = chain[unfolded u_def, unfolded t_def, unfolded pre_def, unfolded s3_def,
      unfolded L_def]
  show ?thesis
    unfolding Let_def using chain' ring[unfolded Let_def] by (rule conjI)
qed

subsection \<open>The additions of a sample\<close>

lemma additions_step:
  "k < j \<Longrightarrow> additions L rnd k j s =
     (case add_percolating_site L None (rnd k) s of
        Inl e \<Rightarrow> Inl e | Inr s1 \<Rightarrow> additions L rnd (Suc k) j s1)"
  unfolding additions_def by (simp add: upt_conv_Cons)

lemma additions_empty: "additions L rnd k k s = Inr s"
  by (simp add: additions_def)

lemma pp_steps_never:
  "pp_steps L w1 w2 rnd [k ..< nsites L] da dt acc s = Inl (NeverPercolates st) \<longleftrightarrow>
     k < nsites L \<and> additions L rnd k (nsites L) s = Inr st \<and>
     (\<forall>j t. k < j \<and> j \<le> nsites L \<and> additions L rnd k j s = Inr t \<longrightarrow>
        \<not> all_pos (is_wrapping t ! nat (largest t)))"
proof (induction "nsites L - k" arbitrary: k da dt acc s)
  case 0
  then show ?case by simp
next
  case (Suc d)
  then have kN: "k < nsites L" by simp
  have upt: "[k ..< nsites L] = k # [Suc k ..< nsites L]" using kN by (simp add: upt_conv_Cons)
  show ?case
  proof (cases "add_percolating_site L None (rnd k) s")
    case (Inl e)
    then show ?thesis using kN additions_step[of k "nsites L" L rnd s] by (simp add: upt)
  next
    case (Inr s1)
    have one: "additions L rnd k (Suc k) s = Inr s1"
      using Inr additions_step[of k "Suc k" L rnd s] by (simp add: additions_empty)
    show ?thesis
    proof (cases "all_pos (is_wrapping s1 ! nat (largest s1))")
      case True
      have "\<not> (\<forall>j t. k < j \<and> j \<le> nsites L \<and> additions L rnd k j s = Inr t \<longrightarrow>
              \<not> all_pos (is_wrapping t ! nat (largest t)))"
        using one True kN by (metis Suc_leI lessI)
      with True Inr show ?thesis by (simp add: upt Let_def)
    next
      case False
      show ?thesis
      proof (cases "Suc k = nsites L")
        case last: True
        then have "int k = int (nsites L) - 1" by simp
        moreover have "(\<forall>j t. k < j \<and> j \<le> nsites L \<and> additions L rnd k j s = Inr t \<longrightarrow>
              \<not> all_pos (is_wrapping t ! nat (largest t)))"
        proof (intro allI impI)
          fix j t assume a: "k < j \<and> j \<le> nsites L \<and> additions L rnd k j s = Inr t"
          with last have "j = Suc k" by simp
          with a one False show "\<not> all_pos (is_wrapping t ! nat (largest t))" by simp
        qed
        moreover have "additions L rnd k (nsites L) s = Inr s1" using one last by simp
        ultimately show ?thesis using Inr False kN by (auto simp: upt Let_def)
      next
        case more: False
        with kN have ni: "int k \<noteq> int (nsites L) - 1" by simp
        from Suc.hyps(2) have d: "d = nsites L - Suc k" by simp
        note IH = Suc.hyps(1)[OF d]
        have q: "(\<forall>j t. k < j \<and> j \<le> nsites L \<and> additions L rnd k j s = Inr t \<longrightarrow>
              \<not> all_pos (is_wrapping t ! nat (largest t))) \<longleftrightarrow>
           (\<forall>j t. Suc k < j \<and> j \<le> nsites L \<and> additions L rnd (Suc k) j s1 = Inr t \<longrightarrow>
              \<not> all_pos (is_wrapping t ! nat (largest t)))" (is "?A \<longleftrightarrow> ?B")
        proof
          assume A: ?A
          show ?B
          proof (intro allI impI)
            fix j t assume a: "Suc k < j \<and> j \<le> nsites L \<and> additions L rnd (Suc k) j s1 = Inr t"
            then have "additions L rnd k j s = Inr t"
              using additions_step[of k j L rnd s] Inr by simp
            with A a show "\<not> all_pos (is_wrapping t ! nat (largest t))" by (metis Suc_lessD)
          qed
        next
          assume B: ?B
          show ?A
          proof (intro allI impI)
            fix j t assume a: "k < j \<and> j \<le> nsites L \<and> additions L rnd k j s = Inr t"
            show "\<not> all_pos (is_wrapping t ! nat (largest t))"
            proof (cases "j = Suc k")
              case True
              with a one False show ?thesis by simp
            next
              case False
              with a have "Suc k < j" by simp
              moreover have "additions L rnd (Suc k) j s1 = Inr t"
                using additions_step[of k j L rnd s] a Inr by simp
              ultimately show ?thesis using B a by blast
            qed
          qed
        qed
        have "additions L rnd k (nsites L) s = additions L rnd (Suc k) (nsites L) s1"
          using additions_step[of k "nsites L" L rnd s] Inr kN by simp
        with IH q more kN show ?thesis
          using Inr False ni by (simp add: upt Let_def)
      qed
    qed
  qed
qed

lemma add_None_counts:
  assumes "add_percolating_site L None r s = Inr s'" "vacant s \<noteq> []"
  shows "Suc (length (vacant s')) = length (vacant s) \<and>
         length (occupied s') = Suc (length (occupied s))"
proof -
  let ?sel = "r mod length (vacant s)"
  from assms(2) have sel: "?sel < length (vacant s)" by simp
  from assms have "neighbor_loop L (vacant s ! ?sel) [0 ..< length (nn L ! (vacant s ! ?sel))]
      (new_cluster s ?sel (vacant s ! ?sel)) = Inr s'"
    by (simp add: add_percolating_site_def num_vacant_def Let_def)
  from neighbor_loop_frame[OF this] sel show ?thesis
    by (simp add: frame_eq_def min_def)
qed

lemma additions_counts:
  "additions L rnd k j s = Inr st \<Longrightarrow> j - k \<le> length (vacant s) \<Longrightarrow>
   length (vacant st) = length (vacant s) - (j - k) \<and>
   length (occupied st) = length (occupied s) + (j - k)"
proof (induction "j - k" arbitrary: k s)
  case 0
  then show ?case by (simp add: additions_def)
next
  case (Suc d)
  then have kj: "k < j" by simp
  with Suc.prems(1) additions_step[of k j L rnd s]
  obtain s1 where a: "add_percolating_site L None (rnd k) s = Inr s1"
    and r: "additions L rnd (Suc k) j s1 = Inr st"
    by (auto split: sum.splits)
  from Suc.prems(2) kj have ne: "vacant s \<noteq> []" by auto
  from add_None_counts[OF a ne] have c: "Suc (length (vacant s1)) = length (vacant s)"
    "length (occupied s1) = Suc (length (occupied s))" by auto
  from Suc.hyps(2) have d: "d = j - Suc k" by simp
  from Suc.hyps(1)[OF d r] c Suc.prems(2) kj show ?case by auto
qed

subsection \<open>Random additions on a regular lattice return\<close>

lemma index_py_mem: "y \<in> set xs \<Longrightarrow> \<exists>k. index_py xs y = Some k \<and> k < length xs"
  by (induction xs) auto

lemma map_length_update:
  "map length (bs[a := (bs ! a)[k := v]]) = map length bs"
proof (rule nth_equalityI)
  show "length (map length (bs[a := (bs ! a)[k := v]])) = length (map length bs)" by simp
next
  fix i assume "i < length (map length (bs[a := (bs ! a)[k := v]]))"
  then have "i < length bs" by simp
  then show "map length (bs[a := (bs ! a)[k := v]]) ! i = map length bs ! i"
    by (cases "i = a") simp_all
qed

lemma bonds_ok_nth:
  assumes "bonds_ok L s"
  shows "length (bonds s) = length (nn L)"
    and "i < length (nn L) \<Longrightarrow> length (bonds s ! i) = length (nn L ! i)"
proof -
  from assms have eq: "map length (bonds s) = map length (nn L)" by (simp add: bonds_ok_def)
  from arg_cong[OF eq, of length] show l: "length (bonds s) = length (nn L)" by simp
  assume i: "i < length (nn L)"
  from eq have "map length (bonds s) ! i = map length (nn L) ! i" by (simp only:)
  with i l show "length (bonds s ! i) = length (nn L ! i)" by simp
qed

lemma remember_bonds_total:
  assumes "lattice_ok L" "bonds_ok L s" "a < nsites L" "b < nsites L"
    "b \<in> set (nn L ! a)" "a \<in> set (nn L ! b)"
  shows "\<exists>t. remember_bonds L s a b = Inr t \<and> bonds_ok L t"
proof -
  from assms(1) have ln: "length (nn L) = nsites L" by (simp add: lattice_ok_def)
  from bonds_ok_nth(1)[OF assms(2)] ln have lb: "length (bonds s) = nsites L" by simp
  have le: "length (bonds s ! i) = length (nn L ! i)" if "i < nsites L" for i
    using bonds_ok_nth(2)[OF assms(2), of i] that ln by simp
  from index_py_mem[OF assms(5)] obtain k1 where k1: "index_py (nn L ! a) b = Some k1"
    "k1 < length (nn L ! a)" by auto
  from index_py_mem[OF assms(6)] obtain k2 where k2: "index_py (nn L ! b) a = Some k2"
    "k2 < length (nn L ! b)" by auto
  define b1 where "b1 = (bonds s)[a := (bonds s ! a)[k1 := True]]"
  define b2 where "b2 = b1[b := (b1 ! b)[k2 := True]]"
  have l1: "map length b1 = map length (bonds s)" unfolding b1_def by (rule map_length_update)
  have l2: "map length b2 = map length b1" unfolding b2_def by (rule map_length_update)
  from arg_cong[OF l1, of length] have lb1: "length b1 = length (bonds s)" by simp
  from l1 have "map length b1 ! b = map length (bonds s) ! b" by (simp only:)
  with lb lb1 assms(4) have "length (b1 ! b) = length (bonds s ! b)" by simp
  with le[OF assms(4)] k2 have nl2: "\<not> length (b1 ! b) \<le> k2" by simp
  from le[OF assms(3)] k1 have nl1: "\<not> length (bonds s ! a) \<le> k1" by simp
  show ?thesis
  proof (cases "bonds s ! a ! k1")
    case True
    then have "remember_bonds L s a b = Inr s" by (simp add: remember_bonds_def k1 nl1)
    with assms(2) show ?thesis by blast
  next
    case False
    then have "remember_bonds L s a b = Inr (s\<lparr>bonds := b2, nbonds := nbonds s + 1\<rparr>)"
      using nl1 nl2 by (simp add: remember_bonds_def k1 k2 Let_def b1_def[symmetric] b2_def)
    moreover have "bonds_ok L (s\<lparr>bonds := b2, nbonds := nbonds s + 1\<rparr>)"
      using assms(2) l1 l2 by (simp add: bonds_ok_def)
    ultimately show ?thesis by blast
  qed
qed

lemma merge_diff_Inl: "merge_diff s c1 c2 d = Inl e \<Longrightarrow> e = NonTermination"
  by (auto simp: merge_diff_def split: option.splits prod.splits)

lemma merge_clusters_Inl:
  assumes "merge_clusters L s c1 a c2 b T = Inl e"
  shows "e = NonTermination \<or> remember_bonds L s a b = Inl e"
proof (cases "remember_bonds L s a b")
  case (Inl e')
  with assms show ?thesis by (simp add: merge_clusters_def split: if_splits)
next
  case (Inr t)
  with assms have "merge_diff (merge_counters t (nat c1) (nat c2)) (nat c1) (nat c2)
      (merge_vec L t a b T) = Inl e"
    by (simp add: merge_clusters_def Let_def split: if_splits)
  then show ?thesis by (simp add: merge_diff_Inl)
qed

lemma merge_diff_bonds: "merge_diff s c1 c2 d = Inr s' \<Longrightarrow> bonds s' = bonds s"
  by (auto simp: merge_diff_def merge_update_def retire_def Let_def
      split: option.splits prod.splits)

lemma merge_clusters_bonds:
  assumes "merge_clusters L s c1 a c2 b T = Inr s'"
  shows "s' = s \<or> (\<exists>t. remember_bonds L s a b = Inr t \<and> bonds s' = bonds t)"
proof (cases "check_special L s a b")
  case False
  with assms show ?thesis by (simp add: merge_clusters_def)
next
  case True
  with assms obtain t where t: "remember_bonds L s a b = Inr t"
    by (auto simp: merge_clusters_def split: sum.splits)
  have ms: "bonds (merge_same t c d) = bonds t" for c d
    by (simp add: merge_same_def Let_def)
  have "bonds s' = bonds t"
  proof (cases "c1 = c2")
    case True
    with assms t \<open>check_special L s a b\<close> have "s' = merge_same t (nat c1) (merge_vec L t a b T)"
      by (simp add: merge_clusters_def)
    then show ?thesis by (simp only: ms)
  next
    case False
    with assms t \<open>check_special L s a b\<close>
    have "merge_diff (merge_counters t (nat c1) (nat c2)) (nat c1) (nat c2)
      (merge_vec L t a b T) = Inr s'"
      by (simp add: merge_clusters_def Let_def)
    from merge_diff_bonds[OF this] show ?thesis by (simp add: merge_counters_def Let_def)
  qed
  with t show ?thesis by blast
qed

lemma merge_clusters_total:
  assumes L: "lattice_regular L" and inv: "percolator_inv (nsites L) s" and bo: "bonds_ok L s"
    and a: "a < nsites L" and b: "b < nsites L"
    and oa: "0 \<le> cluster s ! a" and ob: "0 \<le> cluster s ! b"
    and nb: "b \<in> set (nn L ! a)"
  shows "\<exists>s'. merge_clusters L s (cluster s ! a) a (cluster s ! b) b T = Inr s' \<and>
           percolator_inv (nsites L) s' \<and> same_occupation (nsites L) s s' \<and> bonds_ok L s'"
proof -
  from L have ok: "lattice_ok L" by (simp add: lattice_regular_def)
  from L a nb have "a \<in> set (nn L ! b)" by (auto simp: lattice_regular_def)
  from remember_bonds_total[OF ok bo a b nb this]
  obtain t where t: "remember_bonds L s a b = Inr t" "bonds_ok L t" by blast
  let ?r = "merge_clusters L s (cluster s ! a) a (cluster s ! b) b T"
  from merge_clusters_inv[OF inv a b oa ob, of L T]
  have ret: "returns (\<lambda>s'. percolator_inv (nsites L) s' \<and> same_occupation (nsites L) s s') ?r" .
  show ?thesis
  proof (cases ?r)
    case (Inl e)
    with ret have "e \<noteq> NonTermination" by simp
    with merge_clusters_Inl[OF Inl] t show ?thesis by simp
  next
    case (Inr s')
    from merge_clusters_bonds[OF Inr] t bo have "bonds_ok L s'"
      by (auto simp: bonds_ok_def)
    with ret Inr show ?thesis by simp
  qed
qed

lemma next_nearest_loop_total:
  assumes L: "lattice_regular L" and nb: "nb < nsites L"
  shows "percolator_inv (nsites L) s \<Longrightarrow> bonds_ok L s \<Longrightarrow> 0 \<le> cluster s ! nb \<Longrightarrow>
         \<forall>j \<in> set js. j < length (nn L ! nb) \<Longrightarrow>
         \<exists>s'. next_nearest_loop L nb js s = Inr s' \<and> percolator_inv (nsites L) s' \<and>
              same_occupation (nsites L) s s' \<and> bonds_ok L s'"
proof (induction js arbitrary: s)
  case Nil
  then show ?case by (simp add: same_occupation_refl)
next
  case (Cons j js)
  let ?nb2 = "nn L ! nb ! j"
  from L have ok: "lattice_ok L" by (simp add: lattice_regular_def)
  from Cons.prems(4) have jn: "?nb2 \<in> set (nn L ! nb)" by simp
  with ok nb have n2: "?nb2 < nsites L" by (auto simp: lattice_ok_def)
  from L nb jn have sym: "nb \<in> set (nn L ! ?nb2)" by (auto simp: lattice_regular_def)
  show ?case
  proof (cases "0 \<le> cluster s ! ?nb2")
    case False
    with Cons show ?thesis by (simp add: Let_def)
  next
    case True
    from merge_clusters_total[OF L Cons.prems(1,2) n2 nb True Cons.prems(3) sym]
    obtain s' where m: "merge_clusters L s (cluster s ! ?nb2) ?nb2 (cluster s ! nb) nb
          (ivneg (T_vectors L ! nb ! j)) = Inr s'"
      and i: "percolator_inv (nsites L) s'" and o: "same_occupation (nsites L) s s'"
      and bo: "bonds_ok L s'" by blast
    from o nb Cons.prems(3) have "0 \<le> cluster s' ! nb" by (simp add: same_occupation_def)
    from Cons.IH[OF i bo this] Cons.prems(4)
    obtain s'' where "next_nearest_loop L nb js s' = Inr s''" "percolator_inv (nsites L) s''"
      "same_occupation (nsites L) s' s''" "bonds_ok L s''" by auto
    with m True o show ?thesis
      by (auto simp: Let_def intro: same_occupation_trans)
  qed
qed

lemma neighbor_loop_total:
  assumes L: "lattice_regular L" and st: "site < nsites L"
  shows "percolator_inv (nsites L) s \<Longrightarrow> bonds_ok L s \<Longrightarrow> 0 \<le> cluster s ! site \<Longrightarrow>
         \<forall>i \<in> set is. i < length (nn L ! site) \<Longrightarrow>
         \<exists>s'. neighbor_loop L site is s = Inr s' \<and> bonds_ok L s'"
proof (induction "is" arbitrary: s)
  case Nil
  then show ?case by simp
next
  case (Cons i "is")
  let ?nb = "nn L ! site ! i"
  from L have ok: "lattice_ok L" by (simp add: lattice_regular_def)
  from Cons.prems(4) have jn: "?nb \<in> set (nn L ! site)" by simp
  with ok st have nb: "?nb < nsites L" by (auto simp: lattice_ok_def)
  from L st jn have sym: "site \<in> set (nn L ! ?nb)" by (auto simp: lattice_regular_def)
  have rest: "\<exists>s'. neighbor_loop L site is t = Inr s' \<and> bonds_ok L s'"
    if "percolator_inv (nsites L) t" "same_occupation (nsites L) s t" "bonds_ok L t" for t
  proof -
    from that(2) st Cons.prems(3) have "0 \<le> cluster t ! site" by (simp add: same_occupation_def)
    from Cons.IH[OF that(1,3) this] Cons.prems(4) show ?thesis by simp
  qed
  show ?case
  proof (cases "0 \<le> cluster s ! ?nb")
    case False
    with rest[OF Cons.prems(1) same_occupation_refl Cons.prems(2)] show ?thesis
      by (simp add: Let_def)
  next
    case True
    from merge_clusters_total[OF L Cons.prems(1,2) nb st True Cons.prems(3) sym]
    obtain s' where m: "merge_clusters L s (cluster s ! ?nb) ?nb (cluster s ! site) site
          (ivneg (T_vectors L ! site ! i)) = Inr s'"
      and i: "percolator_inv (nsites L) s'" and o: "same_occupation (nsites L) s s'"
      and bo: "bonds_ok L s'" by blast
    show ?thesis
    proof (cases "special s'")
      case False
      with rest[OF i o bo] m True show ?thesis by (simp add: Let_def)
    next
      case sp: True
      from o nb True have onb: "0 \<le> cluster s' ! ?nb" by (simp add: same_occupation_def)
      from next_nearest_loop_total[OF L nb i bo onb, of "[0 ..< length (nn L ! ?nb)]"]
      obtain s'' where n: "next_nearest_loop L ?nb [0 ..< length (nn L ! ?nb)] s' = Inr s''"
        and i': "percolator_inv (nsites L) s''" and o': "same_occupation (nsites L) s' s''"
        and bo': "bonds_ok L s''" by auto
      from rest[OF i' same_occupation_trans[OF o o'] bo'] m n True sp show ?thesis
        by (simp add: Let_def)
    qed
  qed
qed

lemma bonds_ok_new_cluster [simp]: "bonds_ok L (new_cluster s sel site) = bonds_ok L s"
  by (simp add: bonds_ok_def new_cluster_def Let_def)

lemma add_random_total:
  assumes L: "lattice_regular L" and inv: "percolator_inv (nsites L) s" and bo: "bonds_ok L s"
  shows "\<exists>s'. add_percolating_site L None rnd s = Inr s' \<and> percolator_inv (nsites L) s' \<and>
           bonds_ok L s'"
proof (cases "vacant s = []")
  case True
  with inv bo show ?thesis by (simp add: add_percolating_site_def num_vacant_def)
next
  case False
  let ?sel = "rnd mod length (vacant s)"
  let ?st = "vacant s ! ?sel"
  from False have sel: "?sel < length (vacant s)" by simp
  from L have ok: "lattice_ok L" by (simp add: lattice_regular_def)
  from new_cluster_occupied[OF inv sel]
  have a: "?st < nsites L" and b: "0 \<le> cluster (new_cluster s ?sel ?st) ! ?st" by auto
  from neighbor_loop_total[OF L a new_cluster_inv[OF inv sel] _ b, of "[0 ..< length (nn L ! ?st)]"] bo
  obtain s' where r: "neighbor_loop L ?st [0 ..< length (nn L ! ?st)] (new_cluster s ?sel ?st) = Inr s'"
    and bo': "bonds_ok L s'" by auto
  from r False have e: "add_percolating_site L None rnd s = Inr s'"
    by (simp add: add_percolating_site_def num_vacant_def Let_def)
  from add_percolating_site_inv[OF ok inv, of None rnd] e have "percolator_inv (nsites L) s'" by simp
  with e bo' show ?thesis by simp
qed

lemma additions_total:
  assumes L: "lattice_regular L"
  shows "percolator_inv (nsites L) s \<Longrightarrow> bonds_ok L s \<Longrightarrow>
         \<exists>s'. additions L rnd k j s = Inr s' \<and> percolator_inv (nsites L) s'"
proof (induction "j - k" arbitrary: k s)
  case 0
  then show ?case by (simp add: additions_def)
next
  case (Suc d)
  then have kj: "k < j" by simp
  from add_random_total[OF L Suc.prems, of "rnd k"]
  obtain s1 where a: "add_percolating_site L None (rnd k) s = Inr s1"
    and i: "percolator_inv (nsites L) s1" and b: "bonds_ok L s1" by blast
  from Suc.hyps(2) have d: "d = j - Suc k" by simp
  from Suc.hyps(1)[OF d i b] additions_step[OF kj, of L rnd s] a show ?case by simp
qed

lemma start_bonds_ok:
  assumes "lattice_regular L"
  shows "bonds_ok L (start L r)"
proof -
  from assms have ln: "length (nn L) = nsites L"
    and d: "\<And>i. i < nsites L \<Longrightarrow> distinct (nn L ! i)"
    by (auto simp: lattice_regular_def lattice_ok_def)
  have b: "bonds (start L r) = map (\<lambda>i. replicate (card (set (nn L ! i))) False) [0 ..< nsites L]"
    by (simp add: start_def reset_def init_def set_special_percolation_rule_def comp_def
        split: option.splits)
  have "map length (bonds (start L r)) = map length (nn L)"
  proof (rule nth_equalityI)
    show "length (map length (bonds (start L r))) = length (map length (nn L))"
      by (simp add: b ln)
  next
    fix i assume "i < length (map length (bonds (start L r)))"
    then have i: "i < nsites L" by (simp add: b)
    with d[OF i] ln show "map length (bonds (start L r)) ! i = map length (nn L) ! i"
      by (simp add: b distinct_card)
  qed
  then show ?thesis by (simp add: bonds_ok_def)
qed

lemma random_run_returns:
  "lattice_regular L \<Longrightarrow> \<exists>s. additions L rnd 0 k (start L r) = Inr s"
  using additions_total[OF _ start_inv start_bonds_ok, of L rnd 0 k r] by blast

subsection \<open>The exhausted trial of \<open>percolation_point\<close>\<close>

text \<open>
  An addition leaves alone what \<open>reset\<close> keeps: every trial of a run of
  \<open>percolation_point\<close> starts from the same state.
\<close>

lemma remember_bonds_lengths:
  "remember_bonds L s a b = Inr s' \<Longrightarrow> map length (bonds s') = map length (bonds s)"
  by (auto simp: remember_bonds_def Let_def map_length_update split: option.splits if_splits)

lemma merge_clusters_lengths:
  assumes "merge_clusters L s c1 a c2 b T = Inr s'"
  shows "map length (bonds s') = map length (bonds s)"
  using merge_clusters_bonds[OF assms] by (auto dest: remember_bonds_lengths)

lemma next_nearest_loop_lengths:
  "next_nearest_loop L nb js s = Inr s' \<Longrightarrow> map length (bonds s') = map length (bonds s)"
proof (induction js arbitrary: s)
  case Nil
  then show ?case by simp
next
  case (Cons j js)
  then show ?case
    by (auto simp: Let_def split: if_splits sum.splits dest!: merge_clusters_lengths)
qed

lemma neighbor_loop_lengths:
  "neighbor_loop L site is s = Inr s' \<Longrightarrow> map length (bonds s') = map length (bonds s)"
proof (induction "is" arbitrary: s)
  case Nil
  then show ?case by simp
next
  case (Cons i "is")
  then show ?case
    by (auto simp: Let_def split: if_splits sum.splits
        dest!: merge_clusters_lengths next_nearest_loop_lengths)
qed

lemma reset_cong:
  assumes "frame_eq s s'" "map length (bonds s') = map length (bonds s)"
  shows "reset L s' = reset L s"
proof -
  have "map (\<lambda>b. replicate (length b) False) bs = map (\<lambda>n. replicate n False) (map length bs)"
    for bs :: "bool list list" by simp
  then have "map (\<lambda>b. replicate (length b) False) (bonds s')
      = map (\<lambda>b. replicate (length b) False) (bonds s)"
    using assms(2) by metis
  with assms(1) show ?thesis
    by (cases s; cases s') (simp add: reset_def frame_eq_def)
qed

lemma reset_new_cluster: "reset L (new_cluster s sel site) = reset L s"
  by (simp add: reset_def new_cluster_def Let_def)

lemma add_percolating_site_reset:
  assumes "add_percolating_site L site r s = Inr s'"
  shows "reset L s' = reset L s"
proof -
  from assms have "s' = s \<or> (\<exists>sel st. neighbor_loop L st [0 ..< length (nn L ! st)] (new_cluster s sel st) = Inr s')"
    by (auto simp: add_percolating_site_def Let_def split: if_splits option.splits)
  then show ?thesis
  proof
    assume "s' = s"
    then show ?thesis by simp
  next
    assume "\<exists>sel st. neighbor_loop L st [0 ..< length (nn L ! st)] (new_cluster s sel st) = Inr s'"
    then obtain sel st where
      l: "neighbor_loop L st [0 ..< length (nn L ! st)] (new_cluster s sel st) = Inr s'" by blast
    from reset_cong[OF neighbor_loop_frame[OF l] neighbor_loop_lengths[OF l]]
    show ?thesis by (simp add: reset_new_cluster)
  qed
qed

lemma run_reset: "run L ops s = Inr s' \<Longrightarrow> reset L s' = reset L s"
proof (induction ops arbitrary: s)
  case Nil
  then show ?case by simp
next
  case (Cons op ops)
  obtain site r where op: "op = (site, r)" by (cases op)
  from Cons.prems obtain s1 where a: "add_percolating_site L site r s = Inr s1"
    and b: "run L ops s1 = Inr s'"
    by (auto simp: op split: sum.splits)
  from Cons.IH[OF b] add_percolating_site_reset[OF a] show ?case by simp
qed

lemma additions_reset: "additions L rnd k j s = Inr s' \<Longrightarrow> reset L s' = reset L s"
  unfolding additions_def by (rule run_reset)

lemma add_percolating_site_sites:
  assumes "add_percolating_site L site r s = Inr s'"
  shows "set (occupied s') \<union> set (vacant s') = set (occupied s) \<union> set (vacant s)"
proof -
  have del: "set (take sel xs @ drop (Suc sel) xs) \<union> {xs ! sel} = set xs"
    if "sel < length xs" for sel and xs :: "nat list"
  proof -
    from that have "xs = take sel xs @ xs ! sel # drop (Suc sel) xs" by (simp add: id_take_nth_drop)
    then have "set xs = set (take sel xs @ xs ! sel # drop (Suc sel) xs)" by simp
    then show ?thesis by auto
  qed
  have step: "set (occupied s') \<union> set (vacant s') = set (occupied s) \<union> set (vacant s)"
    if l: "neighbor_loop L (vacant s ! sel) js (new_cluster s sel (vacant s ! sel)) = Inr s'"
      and sel: "sel < length (vacant s)" for sel js
  proof -
    from neighbor_loop_frame[OF l]
    have "occupied s' = occupied s @ [vacant s ! sel]"
      "vacant s' = take sel (vacant s) @ drop (Suc sel) (vacant s)"
      by (simp_all add: frame_eq_def new_cluster_def Let_def)
    with del[OF sel] show ?thesis by auto
  qed
  show ?thesis
  proof (cases "num_vacant s \<le> 0")
    case True
    with assms show ?thesis by (simp add: add_percolating_site_def)
  next
    case False
    then have ne: "0 < length (vacant s)" by (simp add: num_vacant_def)
    show ?thesis
    proof (cases "site = None \<or> site = Some 0")
      case True
      from ne have sel: "r mod length (vacant s) < length (vacant s)" by simp
      from assms True False
      have "neighbor_loop L (vacant s ! (r mod length (vacant s)))
          [0 ..< length (nn L ! (vacant s ! (r mod length (vacant s))))]
          (new_cluster s (r mod length (vacant s)) (vacant s ! (r mod length (vacant s)))) = Inr s'"
        by (simp add: add_percolating_site_def Let_def num_vacant_def)
      from step[OF this sel] show ?thesis .
    next
      case n0: False
      then obtain k where k: "site = Some k" "k \<noteq> 0" by (cases site) auto
      from assms k False obtain sel where i: "index_py (map int (vacant s)) k = Some sel"
        and l: "neighbor_loop L (nat k) [0 ..< length (nn L ! nat k)] (new_cluster s sel (nat k)) = Inr s'"
        by (auto simp: add_percolating_site_def Let_def split: option.splits)
      from index_py_Some[OF i] have sel: "sel < length (vacant s)" and e: "nat k = vacant s ! sel"
        by auto
      from step[OF _ sel] l e show ?thesis by simp
    qed
  qed
qed

lemma run_sites:
  "run L ops s = Inr s' \<Longrightarrow> set (occupied s') \<union> set (vacant s') = set (occupied s) \<union> set (vacant s)"
proof (induction ops arbitrary: s)
  case Nil
  then show ?case by simp
next
  case (Cons op ops)
  obtain site r where op: "op = (site, r)" by (cases op)
  from Cons.prems obtain s1 where a: "add_percolating_site L site r s = Inr s1"
    and b: "run L ops s1 = Inr s'"
    by (auto simp: op split: sum.splits)
  from Cons.IH[OF b] add_percolating_site_sites[OF a] show ?case by simp
qed

lemma pp_steps_Inr:
  "pp_steps L w1 w2 rnd [k ..< nsites L] da dt acc s = Inr (acc', s') \<Longrightarrow> k < nsites L \<Longrightarrow>
     \<exists>j. k < j \<and> j \<le> nsites L \<and> additions L rnd k j s = Inr s' \<and> wraps_all s'"
proof (induction "nsites L - k" arbitrary: k da dt acc s)
  case 0
  then show ?case by simp
next
  case (Suc d)
  from Suc.prems(2) have kN: "k < nsites L" .
  have upt: "[k ..< nsites L] = k # [Suc k ..< nsites L]" using kN by (simp add: upt_conv_Cons)
  from Suc.prems(1) obtain s1 where a: "add_percolating_site L None (rnd k) s = Inr s1"
    by (auto simp: upt split: sum.splits)
  have one: "additions L rnd k (Suc k) s = Inr s1"
    using a additions_step[of k "Suc k" L rnd s] by (simp add: additions_empty)
  show ?case
  proof (cases "all_pos (is_wrapping s1 ! nat (largest s1))")
    case True
    with Suc.prems(1) a have "s' = s1" by (simp add: upt Let_def)
    with one True kN show ?thesis by (auto simp: wraps_all_def)
  next
    case False
    with Suc.prems(1) a have ni: "int k \<noteq> int (nsites L) - 1"
      by (auto simp: upt Let_def split: if_splits)
    then have k1: "Suc k < nsites L" using kN by simp
    from Suc.hyps(2) have d: "d = nsites L - Suc k" by simp
    from Suc.prems(1) a False ni obtain da' dt' acc1 where
      r: "pp_steps L w1 w2 rnd [Suc k ..< nsites L] da' dt' acc1 s1 = Inr (acc', s')"
      by (simp add: upt Let_def)
    from Suc.hyps(1)[OF d r k1] obtain j where j: "Suc k < j" "j \<le> nsites L"
      "additions L rnd (Suc k) j s1 = Inr s'" "wraps_all s'" by blast
    from j(1) have "k < j" by simp
    with additions_step[OF this, of L rnd s] a j
    have "k < j \<and> j \<le> nsites L \<and> additions L rnd k j s = Inr s' \<and> wraps_all s'" by simp
    then show ?thesis by blast
  qed
qed

lemma pp_steps_percolates:
  "k < j \<Longrightarrow> j \<le> nsites L \<Longrightarrow> additions L rnd k j s = Inr t \<Longrightarrow> wraps_all t \<Longrightarrow>
     \<exists>r. pp_steps L w1 w2 rnd [k ..< nsites L] da dt acc s = Inr r"
proof (induction "nsites L - k" arbitrary: k da dt acc s)
  case 0
  then show ?case by simp
next
  case (Suc d)
  from Suc.prems have kN: "k < nsites L" by simp
  have upt: "[k ..< nsites L] = k # [Suc k ..< nsites L]" using kN by (simp add: upt_conv_Cons)
  from Suc.prems(1,3) additions_step[of k j L rnd s]
  obtain s1 where a: "add_percolating_site L None (rnd k) s = Inr s1"
    and r: "additions L rnd (Suc k) j s1 = Inr t"
    by (auto split: sum.splits)
  show ?case
  proof (cases "all_pos (is_wrapping s1 ! nat (largest s1))")
    case True
    with a show ?thesis by (simp add: upt Let_def)
  next
    case False
    have "j \<noteq> Suc k"
    proof
      assume "j = Suc k"
      with r have "t = s1" by (simp add: additions_empty)
      with Suc.prems(4) False show False by (simp add: wraps_all_def)
    qed
    with Suc.prems(1) have kj: "Suc k < j" by simp
    with Suc.prems(2) have ni: "int k \<noteq> int (nsites L) - 1" by simp
    from Suc.hyps(2) have d: "d = nsites L - Suc k" by simp
    from Suc.hyps(1)[OF d kj Suc.prems(2) r Suc.prems(4)] a False ni
    show ?thesis by (simp add: upt Let_def)
  qed
qed

lemma percolates_iff:
  "percolates L rnd s \<longleftrightarrow>
     (\<exists>j t. 0 < j \<and> j \<le> nsites L \<and> additions L rnd 0 j (reset L s) = Inr t \<and> wraps_all t)"
proof
  assume "percolates L rnd s"
  then obtain k where k: "k \<in> set [1 ..< nsites L + 1]"
    and c: "case trial L rnd s k of Inl e \<Rightarrow> False | Inr t \<Rightarrow> wraps_all t"
    unfolding percolates_def by blast
  from c obtain t where "trial L rnd s k = Inr t" "wraps_all t" by (auto split: sum.splits)
  moreover from k have "0 < k" "k \<le> nsites L" by (simp_all del: upt_Suc)
  ultimately have "0 < k \<and> k \<le> nsites L \<and> additions L rnd 0 k (reset L s) = Inr t \<and> wraps_all t"
    by (simp add: trial_def)
  then show "\<exists>j t. 0 < j \<and> j \<le> nsites L \<and> additions L rnd 0 j (reset L s) = Inr t \<and> wraps_all t"
    by blast
next
  assume "\<exists>j t. 0 < j \<and> j \<le> nsites L \<and> additions L rnd 0 j (reset L s) = Inr t \<and> wraps_all t"
  then obtain j t where j: "0 < j" "j \<le> nsites L" "additions L rnd 0 j (reset L s) = Inr t" "wraps_all t"
    by blast
  then have "j \<in> set [1 ..< nsites L + 1]" "case trial L rnd s j of Inl e \<Rightarrow> False | Inr t \<Rightarrow> wraps_all t"
    by (simp_all add: trial_def del: upt_Suc)
  then show "percolates L rnd s" unfolding percolates_def by blast
qed

lemma percolates_cong: "reset L s0 = reset L s \<Longrightarrow> percolates L rnd s0 = percolates L rnd s"
  by (simp add: percolates_iff)

lemma exhausted_iff:
  "0 < nsites L \<Longrightarrow>
   exhausted L rnd s st \<longleftrightarrow>
     pp_steps L w1 w2 rnd [0 ..< nsites L] False False acc (reset L s) = Inl (NeverPercolates st)"
  unfolding exhausted_def percolates_iff trial_def pp_steps_never wraps_all_def by auto

lemma sample_cases:
  assumes N: "0 < nsites L"
  shows "(\<exists>st. pp_steps L w1 w2 rnd [0 ..< nsites L] False False acc (reset L s) = Inl (NeverPercolates st)
            \<and> exhausted L rnd s st \<and> \<not> percolates L rnd s) \<or>
         (\<exists>e. pp_steps L w1 w2 rnd [0 ..< nsites L] False False acc (reset L s) = Inl (Raised e)
            \<and> (\<forall>st. \<not> exhausted L rnd s st) \<and> \<not> percolates L rnd s) \<or>
         (\<exists>acc' s'. pp_steps L w1 w2 rnd [0 ..< nsites L] False False acc (reset L s) = Inr (acc', s')
            \<and> (\<forall>st. \<not> exhausted L rnd s st) \<and> percolates L rnd s \<and> reset L s' = reset L s)"
proof (cases "pp_steps L w1 w2 rnd [0 ..< nsites L] False False acc (reset L s)")
  case (Inr r)
  obtain acc' s' where r: "r = (acc', s')" by (cases r)
  from pp_steps_Inr[OF Inr[unfolded r] N] obtain j where j: "0 < j" "j \<le> nsites L"
    "additions L rnd 0 j (reset L s) = Inr s'" "wraps_all s'" by blast
  then have p: "percolates L rnd s" unfolding percolates_iff by blast
  from additions_reset[OF j(3)] have "reset L s' = reset L s" by (simp add: reset_def)
  with p Inr r show ?thesis by (auto simp: exhausted_def)
next
  case (Inl x)
  have np: "\<not> percolates L rnd s"
  proof
    assume "percolates L rnd s"
    then obtain j t where "0 < j" "j \<le> nsites L" "additions L rnd 0 j (reset L s) = Inr t" "wraps_all t"
      unfolding percolates_iff by blast
    from pp_steps_percolates[OF this, of w1 w2 False False acc] Inl show False by simp
  qed
  show ?thesis
  proof (cases x)
    case (NeverPercolates st)
    with Inl exhausted_iff[OF N, of rnd s st w1 w2 acc] np show ?thesis by simp
  next
    case (Raised e)
    with Inl exhausted_iff[OF N, of rnd s _ w1 w2 acc] np show ?thesis by simp
  qed
qed

lemma pp_samples_never:
  assumes N: "0 < nsites L"
  shows "reset L s0 = reset L s \<Longrightarrow>
     pp_samples L w1 w2 rnd [a ..< b] acc s0 = Inl (NeverPercolates st) \<longleftrightarrow>
       (\<exists>i. a \<le> i \<and> i < b \<and> (\<forall>j. a \<le> j \<and> j < i \<longrightarrow> percolates L (rnd j) s) \<and>
            exhausted L (rnd i) s st)"
proof (induction "b - a" arbitrary: a acc s0)
  case 0
  then show ?case by simp
next
  case (Suc d)
  then have ab: "a < b" by simp
  have upt: "[a ..< b] = a # [Suc a ..< b]" using ab by (simp add: upt_conv_Cons)
  from Suc.hyps(2) have d: "d = b - Suc a" by simp
  let ?R = "\<lambda>a. \<exists>i. a \<le> i \<and> i < b \<and> (\<forall>j. a \<le> j \<and> j < i \<longrightarrow> percolates L (rnd j) s) \<and>
            exhausted L (rnd i) s st"
  have later: "?R a \<longleftrightarrow> ?R (Suc a)" if p: "percolates L (rnd a) s"
  proof
    assume "?R a"
    then obtain i where i: "a \<le> i" "i < b" "\<forall>j. a \<le> j \<and> j < i \<longrightarrow> percolates L (rnd j) s"
      "exhausted L (rnd i) s st" by blast
    from i(4) p have "i \<noteq> a" by (auto simp: exhausted_def)
    with i show "?R (Suc a)" by (intro exI[of _ i]) auto
  next
    assume "?R (Suc a)"
    then obtain i where i: "Suc a \<le> i" "i < b" "\<forall>j. Suc a \<le> j \<and> j < i \<longrightarrow> percolates L (rnd j) s"
      "exhausted L (rnd i) s st" by blast
    have "\<forall>j. a \<le> j \<and> j < i \<longrightarrow> percolates L (rnd j) s"
    proof (intro allI impI)
      fix j assume "a \<le> j \<and> j < i"
      then show "percolates L (rnd j) s" using i(3) p by (cases "j = a") auto
    qed
    with i show "?R a" by (intro exI[of _ i]) auto
  qed
  have none: "?R a \<longleftrightarrow> exhausted L (rnd a) s st" if p: "\<not> percolates L (rnd a) s"
  proof
    assume "?R a"
    then obtain i where i: "a \<le> i" "i < b" "\<forall>j. a \<le> j \<and> j < i \<longrightarrow> percolates L (rnd j) s"
      "exhausted L (rnd i) s st" by blast
    from i(1,3) p have "i = a" by (cases "i = a") auto
    with i show "exhausted L (rnd a) s st" by simp
  next
    assume "exhausted L (rnd a) s st"
    with ab show "?R a" by (intro exI[of _ a]) auto
  qed
  from sample_cases[OF N, of w1 w2 "rnd a" acc s]
  show ?case
  proof (elim disjE exE conjE)
    fix st' assume a: "pp_steps L w1 w2 (rnd a) [0 ..< nsites L] False False acc (reset L s) = Inl (NeverPercolates st')"
      and e: "exhausted L (rnd a) s st'" and np: "\<not> percolates L (rnd a) s"
    have "exhausted L (rnd a) s st \<longleftrightarrow> st' = st" using e by (auto simp: exhausted_def)
    with a none[OF np] show ?thesis by (simp add: upt Suc.prems)
  next
    fix e assume a: "pp_steps L w1 w2 (rnd a) [0 ..< nsites L] False False acc (reset L s) = Inl (Raised e)"
      and e: "\<forall>st. \<not> exhausted L (rnd a) s st" and np: "\<not> percolates L (rnd a) s"
    with none[OF np] show ?thesis by (simp add: upt Suc.prems)
  next
    fix acc' s' assume a: "pp_steps L w1 w2 (rnd a) [0 ..< nsites L] False False acc (reset L s) = Inr (acc', s')"
      and e: "\<forall>st. \<not> exhausted L (rnd a) s st" and p: "percolates L (rnd a) s"
      and r: "reset L s' = reset L s"
    from Suc.hyps(1)[OF d r, of acc'] later[OF p] a show ?thesis by (simp add: upt Suc.prems)
  qed
qed

lemma pp_samples_returns:
  assumes N: "0 < nsites L"
  shows "reset L s0 = reset L s \<Longrightarrow> \<forall>j. a \<le> j \<and> j < b \<longrightarrow> percolates L (rnd j) s \<Longrightarrow>
     \<exists>r. pp_samples L w1 w2 rnd [a ..< b] acc s0 = Inr r"
proof (induction "b - a" arbitrary: a acc s0)
  case 0
  then show ?case by simp
next
  case (Suc d)
  then have ab: "a < b" by simp
  have upt: "[a ..< b] = a # [Suc a ..< b]" using ab by (simp add: upt_conv_Cons)
  from Suc.hyps(2) have d: "d = b - Suc a" by simp
  from Suc.prems(2) ab have p: "percolates L (rnd a) s" by simp
  from sample_cases[OF N, of w1 w2 "rnd a" acc s] p
  obtain acc' s' where a: "pp_steps L w1 w2 (rnd a) [0 ..< nsites L] False False acc (reset L s) = Inr (acc', s')"
    and r: "reset L s' = reset L s" by blast
  from Suc.prems(2) have "\<forall>j. Suc a \<le> j \<and> j < b \<longrightarrow> percolates L (rnd j) s" by simp
  from Suc.hyps(1)[OF d r this, of acc'] a show ?case by (simp add: upt Suc.prems(1))
qed

lemma exhausted_sites:
  assumes "exhausted L rnd s st"
  shows "vacant st = [] \<and> length (occupied st) = nsites L \<and> set (occupied st) = {0 ..< nsites L}"
proof -
  from assms have a: "additions L rnd 0 (nsites L) (reset L s) = Inr st"
    by (simp add: exhausted_def trial_def)
  from additions_counts[OF a] have c: "vacant st = []" "length (occupied st) = nsites L"
    by (simp_all add: reset_def)
  from run_sites[OF a[unfolded additions_def]] c(1) have "set (occupied st) = {0 ..< nsites L}"
    by (simp add: reset_def)
  with c show ?thesis by simp
qed

text \<open>
  Claim C9. The driver \<open>percolation_point\<close> ends with the exit "All sites
  occupied, but no wrapping cluster" exactly when the lattice has a site, the
  bond total is not zero (else the weights raise \<open>ZeroDivisionError\<close> before
  the first trial), and one of its trials is exhausted after all earlier
  trials percolated: all \<open>nsites\<close> additions of that trial returned and after
  none of them the largest cluster wrapped in all three directions. The exit
  carries the state after the last addition of that trial, in which no site is
  vacant and the occupied sites are all the sites of the lattice; the trials
  after it are not run. Conversely, when every trial percolates, the driver
  returns its estimates and there is no such exit.
\<close>

theorem percolation_point_exhaustion:
  "(percolation_point L samples rnd s = Inl (NeverPercolates st) \<longleftrightarrow>
      0 < nsites L \<and> nbonds_tot s \<noteq> 0 \<and>
      (\<exists>i < samples. (\<forall>j < i. percolates L (rnd j) s) \<and> exhausted L (rnd i) s st)) \<and>
   (percolation_point L samples rnd s = Inl (NeverPercolates st) \<longrightarrow>
      vacant st = [] \<and> length (occupied st) = nsites L \<and> set (occupied st) = {0 ..< nsites L}) \<and>
   (0 < samples \<and> 0 < nsites L \<and> nbonds_tot s \<noteq> 0 \<and> (\<forall>i < samples. percolates L (rnd i) s) \<longrightarrow>
      (\<exists>r. percolation_point L samples rnd s = Inr r))"
proof -
  let ?w1 = "1 / of_nat samples / of_nat (nsites L) :: rat"
  let ?w2 = "1 / of_nat samples / of_int (nbonds_tot s) :: rat"
  have a: "percolation_point L samples rnd s = Inl (NeverPercolates st) \<longleftrightarrow>
      0 < nsites L \<and> nbonds_tot s \<noteq> 0 \<and>
      (\<exists>i < samples. (\<forall>j < i. percolates L (rnd j) s) \<and> exhausted L (rnd i) s st)"
  proof (cases "samples = 0 \<or> nsites L = 0 \<or> nbonds_tot s = 0")
    case True
    then show ?thesis by (auto simp: percolation_point_def)
  next
    case False
    then have N: "0 < nsites L" by simp
    from False have "percolation_point L samples rnd s = pp_samples L ?w1 ?w2 rnd [0 ..< samples] pc0 s"
      by (simp add: percolation_point_def)
    with pp_samples_never[OF N refl, where rnd = rnd and a = 0 and b = samples and acc = pc0 and st = st
        and s = s] False
    show ?thesis by simp
  qed
  have b: "vacant st = [] \<and> length (occupied st) = nsites L \<and> set (occupied st) = {0 ..< nsites L}"
    if "percolation_point L samples rnd s = Inl (NeverPercolates st)"
  proof -
    from that a obtain i where "exhausted L (rnd i) s st" by blast
    then show ?thesis by (rule exhausted_sites)
  qed
  have c: "\<exists>r. percolation_point L samples rnd s = Inr r"
    if "0 < samples \<and> 0 < nsites L \<and> nbonds_tot s \<noteq> 0 \<and> (\<forall>i < samples. percolates L (rnd i) s)"
  proof -
    from that have N: "0 < nsites L" by simp
    from that have "percolation_point L samples rnd s = pp_samples L ?w1 ?w2 rnd [0 ..< samples] pc0 s"
      by (simp add: percolation_point_def)
    with pp_samples_returns[OF N refl, where rnd = rnd and a = 0 and b = samples and acc = pc0 and s = s] that
    show ?thesis by simp
  qed
  from a b c show ?thesis by blast
qed

theorem percolation_point_exhaustion_witness:
  "(let L = chain_lattice 4; st = projr (trial L (\<lambda>n. 0) (init L) 4)
    in percolation_point L 2 (\<lambda>i n. 0) (init L) = Inl (NeverPercolates st) \<and>
       exhausted L (\<lambda>n. 0) (init L) st \<and> \<not> percolates L (\<lambda>n. 0) (init L) \<and>
       is_wrapping st = [(1, 0, 0)] \<and> vacant st = [] \<and> occupied st = [0, 1, 2, 3]) \<and>
   (let L = diag_lattice 4
    in percolates L (\<lambda>n. 0) (init L) \<and>
       (\<exists>r. percolation_point L 2 (\<lambda>i n. 0) (init L) = Inr r))"
proof -
  let ?L = "chain_lattice 4"
  let ?st = "projr (trial ?L (\<lambda>n. 0) (init ?L) 4)"
  let ?D = "diag_lattice 4"
  have n: "0 < nsites ?L" "nbonds_tot (init ?L) \<noteq> 0" by code_simp+
  have e: "exhausted ?L (\<lambda>n. 0) (init ?L) ?st" by code_simp
  have np: "\<not> percolates ?L (\<lambda>n. 0) (init ?L)" by code_simp
  have w: "is_wrapping ?st = [(1, 0, 0)]" "vacant ?st = []" "occupied ?st = [0, 1, 2, 3]"
    by code_simp+
  have "\<exists>i<2::nat. (\<forall>j<i. percolates ?L ((\<lambda>i n. 0) j) (init ?L)) \<and>
          exhausted ?L ((\<lambda>i n. 0) i) (init ?L) ?st"
    using e by (intro exI[of _ 0]) simp
  with n percolation_point_exhaustion[of ?L 2 "\<lambda>i n. 0" "init ?L" ?st]
  have a: "percolation_point ?L 2 (\<lambda>i n. 0) (init ?L) = Inl (NeverPercolates ?st)" by blast
  have m: "0 < nsites ?D" "nbonds_tot (init ?D) \<noteq> 0" by code_simp+
  have p: "percolates ?D (\<lambda>n. 0) (init ?D)" by code_simp
  with m percolation_point_exhaustion[of ?D 2 "\<lambda>i n. 0" "init ?D" "init ?D"]
  have b: "\<exists>r. percolation_point ?D 2 (\<lambda>i n. 0) (init ?D) = Inr r" by simp
  from a e np w p b show ?thesis by (simp add: Let_def)
qed

subsection \<open>The counters after a run\<close>

lemma map2_conv_upt:
  "length xs = length ys \<Longrightarrow> map2 f xs ys = map (\<lambda>i. f (xs ! i) (ys ! i)) [0 ..< length ys]"
  by (rule nth_equalityI) auto

lemma any_pos_isum3: "nonneg3 w \<Longrightarrow> any_pos w = (0 < isum3 w)"
  by (cases w) auto

lemma inv_wrapping_sites:
  assumes "percolator_inv N s"
  shows "npercolating s = wrapping_sites s"
proof -
  from assms obtain ch where wf: "wf N s ch" and p: "perc_ok s"
    by (auto simp: percolator_inv_def)
  from wf have len: "length (size_c s) = length (first s)" "length (is_wrapping s) = length (first s)"
    and okc: "\<And>c. c < length (first s) \<Longrightarrow> ok_cluster s ch c" by (auto simp: wf_def)
  have "(if 0 < isum3 (is_wrapping s ! c) then size_c s ! c else 0) =
        (if 0 < size_c s ! c \<and> any_pos (is_wrapping s ! c) then size_c s ! c else 0)"
    if "c < length (first s)" for c
    using okc[OF that] by (auto simp: ok_cluster_def any_pos_isum3)
  then have "map (\<lambda>c. if 0 < isum3 (is_wrapping s ! c) then size_c s ! c else 0) [0 ..< length (first s)]
      = map (\<lambda>c. if 0 < size_c s ! c \<and> any_pos (is_wrapping s ! c) then size_c s ! c else 0) [0 ..< length (first s)]"
    by simp
  with p len show ?thesis
    by (simp add: perc_ok_def contrib_def wrapping_sites_def map2_conv_upt)
qed

text \<open>
  Claim C1. On a lattice whose neighbour lists name sites, every sequence of
  additions from \<open>reset\<close> ends (it may raise, it does not loop), and in the
  state it returns \<open>npercolating\<close> is the sum of the sizes of the live clusters
  whose wrapping vector has a positive component. Every prefix of a sequence is
  a sequence, so this holds after each operation; the default rule and every
  common-neighbour rule are covered. On a regular lattice every sequence of
  random additions returns such a state.
\<close>

theorem npercolating_counts_wrapping_sites:
  assumes "lattice_ok L"
  shows "run L ops (start L r) \<noteq> Inl NonTermination \<and>
         (\<forall>s. run L ops (start L r) = Inr s \<longrightarrow> npercolating s = wrapping_sites s) \<and>
         (lattice_regular L \<longrightarrow>
            (\<exists>s. additions L rnd 0 k (start L r) = Inr s \<and> npercolating s = wrapping_sites s))"
proof -
  have a: "run L ops (start L r) \<noteq> Inl NonTermination \<and>
         (\<forall>s. run L ops (start L r) = Inr s \<longrightarrow> npercolating s = wrapping_sites s)"
    using run_start_inv[OF assms, of ops r]
    by (cases "run L ops (start L r)") (auto dest: inv_wrapping_sites)
  have b: "\<exists>s. additions L rnd 0 k (start L r) = Inr s \<and> npercolating s = wrapping_sites s"
    if "lattice_regular L"
    using additions_total[OF that start_inv start_bonds_ok[OF that], of rnd 0 k r]
    by (auto dest: inv_wrapping_sites)
  from a b show ?thesis by blast
qed

theorem npercolating_counts_wrapping_sites_witness:
  "lattice_ok (chain_lattice 4) \<and> lattice_regular (chain_lattice 4) \<and>
   run (chain_lattice 4) [(None, 0), (Some 1, 0), (Some 2, 0), (Some 3, 0)] (start (chain_lattice 4) None)
     \<noteq> Inl NonTermination \<and>
   npercolating (projr (run (chain_lattice 4) [(None, 0), (Some 1, 0), (Some 2, 0), (Some 3, 0)]
      (start (chain_lattice 4) None))) = 4 \<and>
   wrapping_sites (projr (run (chain_lattice 4) [(None, 0), (Some 1, 0), (Some 2, 0), (Some 3, 0)]
      (start (chain_lattice 4) None))) = 4 \<and>
   npercolating (projr (additions (chain_lattice 4) (\<lambda>n. 0) 0 4 (start (chain_lattice 4) None))) = 4 \<and>
   wrapping_sites (projr (additions (chain_lattice 4) (\<lambda>n. 0) 0 4 (start (chain_lattice 4) None))) = 4"
proof -
  let ?r = "run (chain_lattice 4) [(None, 0), (Some 1, 0), (Some 2, 0), (Some 3, 0)] (start (chain_lattice 4) None)"
  let ?a = "additions (chain_lattice 4) (\<lambda>n. 0) 0 4 (start (chain_lattice 4) None)"
  have ok: "lattice_ok (chain_lattice 4)" using chain_lattice_ok[of 3] by (simp add: eval_nat_numeral)
  note reg = chain_lattice_4_regular
  have e: "?r = Inr (projr ?r)" by code_simp
  have n: "npercolating (projr ?r) = 4" by code_simp
  have n': "npercolating (projr ?a) = 4" by code_simp
  note t = npercolating_counts_wrapping_sites[OF ok,
      of "[(None, 0), (Some 1, 0), (Some 2, 0), (Some 3, 0)]" None "\<lambda>n. 0" 4]
  from t e n have w: "wrapping_sites (projr ?r) = 4" by metis
  from t reg obtain s where s: "?a = Inr s" "npercolating s = wrapping_sites s" by blast
  then have "wrapping_sites (projr ?a) = 4" using n' by simp
  with t ok reg n n' w show ?thesis by simp
qed

text \<open>
  Claim C5, as stated, fails in its tie rule. On the periodic chain of eight
  sites, occupy 1, 5, 6, 2: clusters 0 and 1 both have two sites, and
  \<open>largest\<close> is 1, not the lower ID 0 (the comparison that updates \<open>largest\<close> is
  strict, so the cluster that reached the size first stays).
\<close>

theorem largest_not_lowest_id:
  "(case run (chain_lattice 8) [(Some 1, 0), (Some 5, 0), (Some 6, 0), (Some 2, 0)]
           (start (chain_lattice 8) None) of
      Inl e \<Rightarrow> False
    | Inr s \<Rightarrow> size_c s = [2, 2] \<and> largest s = 1)"
  by code_simp

text \<open>
  Claim C5, amended. After every sequence of additions from \<open>reset\<close> that
  occupied a site, \<open>largest\<close> names a live cluster whose size is maximal among
  all clusters; nothing is said about which of several maximal clusters it
  names.
\<close>

theorem largest_is_maximal:
  assumes "lattice_ok L" "run L ops (start L r) = Inr s"
  shows "(first s = [] \<and> largest s = - 1) \<or>
         (0 \<le> largest s \<and> nat (largest s) < length (first s) \<and>
          0 < size_c s ! nat (largest s) \<and>
          (\<forall>c < length (first s). size_c s ! c \<le> size_c s ! nat (largest s)))"
proof -
  from run_start_inv[OF assms(1), of ops r] assms(2) have "largest_ok s"
    by (simp add: percolator_inv_def)
  then show ?thesis by (auto simp: largest_ok_def split: if_splits)
qed

theorem largest_is_maximal_witness:
  "lattice_ok (chain_lattice 8) \<and>
   (let s = projr (run (chain_lattice 8) [(Some 1, 0), (Some 5, 0), (Some 6, 0), (Some 2, 0)]
           (start (chain_lattice 8) None))
    in length (first s) = 2 \<and> 0 \<le> largest s \<and> nat (largest s) < length (first s) \<and>
       0 < size_c s ! nat (largest s) \<and>
       size_c s ! 0 \<le> size_c s ! nat (largest s) \<and> size_c s ! 1 \<le> size_c s ! nat (largest s))"
proof -
  let ?r = "run (chain_lattice 8) [(Some 1, 0), (Some 5, 0), (Some 6, 0), (Some 2, 0)] (start (chain_lattice 8) None)"
  have ok: "lattice_ok (chain_lattice 8)" using chain_lattice_ok[of 7] by (simp add: eval_nat_numeral)
  have e: "?r = Inr (projr ?r)" by code_simp
  have n: "length (first (projr ?r)) = 2" by code_simp
  from largest_is_maximal[OF ok e] n ok show ?thesis by (auto simp: Let_def)
qed

subsection \<open>The site argument of \<open>add_percolating_site\<close>\<close>

lemma add_percolating_site_occupied:
  assumes "add_percolating_site L (Some site) rnd s = Inr s'" "site \<noteq> 0" "vacant s \<noteq> []"
  shows "occupied s' = occupied s @ [nat site] \<and> 0 \<le> site \<and> nat site \<in> set (vacant s)"
proof -
  from assms obtain sel where sel: "index_py (map int (vacant s)) site = Some sel"
    and loop: "neighbor_loop L (nat site) [0 ..< length (nn L ! nat site)] (new_cluster s sel (nat site)) = Inr s'"
    by (auto simp: add_percolating_site_def num_vacant_def Let_def split: option.splits)
  have mem: "index_py xs y = Some k \<Longrightarrow> y \<in> set xs" for xs :: "int list" and y k
    by (induction xs arbitrary: k) (auto split: if_splits)
  from mem[OF sel] have "site \<in> int ` set (vacant s)" by simp
  then have "0 \<le> site" "nat site \<in> set (vacant s)" by auto
  moreover from neighbor_loop_frame[OF loop]
  have "occupied s' = occupied s @ [nat site]"
    by (simp add: frame_eq_def new_cluster_def Let_def)
  ultimately show ?thesis by simp
qed

text \<open>
  Claim C10. The explicit argument 0 is treated as no argument: the call
  occupies the randomly drawn vacant site, which need not be site 0 (on the
  chain of four sites the draw 2 occupies site 2 although site 0 is vacant).
  A nonzero argument that is accepted is the site occupied.
\<close>

theorem site_zero_not_honored:
  "add_percolating_site L (Some 0) rnd s = add_percolating_site L None rnd s \<and>
   (site \<noteq> 0 \<longrightarrow> vacant s \<noteq> [] \<longrightarrow> add_percolating_site L (Some site) rnd s = Inr s' \<longrightarrow>
      occupied s' = occupied s @ [nat site] \<and> 0 \<le> site \<and> nat site \<in> set (vacant s)) \<and>
   0 \<in> set (vacant (start (chain_lattice 4) None)) \<and>
   (case add_percolating_site (chain_lattice 4) (Some 0) 2 (start (chain_lattice 4) None) of
      Inl e \<Rightarrow> False | Inr t \<Rightarrow> occupied t = [2])"
proof -
  have a: "add_percolating_site L (Some 0) rnd s = add_percolating_site L None rnd s"
    by (simp add: add_percolating_site_def)
  have c: "0 \<in> set (vacant (start (chain_lattice 4) None))" by code_simp
  have d: "(case add_percolating_site (chain_lattice 4) (Some 0) 2 (start (chain_lattice 4) None) of
      Inl e \<Rightarrow> False | Inr t \<Rightarrow> occupied t = [2])" by code_simp
  from a c d add_percolating_site_occupied show ?thesis by blast
qed

theorem site_zero_not_honored_witness:
  "(3::int) \<noteq> 0 \<and> vacant (start (chain_lattice 4) None) \<noteq> [] \<and>
   occupied (projr (add_percolating_site (chain_lattice 4) (Some 3) 0 (start (chain_lattice 4) None)))
     = occupied (start (chain_lattice 4) None) @ [nat 3]"
proof -
  let ?s = "start (chain_lattice 4) None"
  let ?r = "add_percolating_site (chain_lattice 4) (Some 3) 0 ?s"
  have h1: "vacant ?s \<noteq> []" by code_simp
  have h2: "?r = Inr (projr ?r)" by code_simp
  from site_zero_not_honored[of "chain_lattice 4" 0 ?s 3 "projr ?r"] h1 h2
  show ?thesis by simp
qed

subsection \<open>The nearest neighbours of a site\<close>

lemma cell3_possible: "get_possible_neighbors cell3 0 = Inr [1, 2]"
  by code_simp

lemma sqrt_vals: "sqrt 196 = 14" "sqrt 324 = 18" "sqrt 169 = 13" "sqrt 9216 = 96"
  by (rule real_sqrt_unique; simp)+

lemma nearest_scan_Cons:
  assumes "dsq = map (\<lambda>c. norm2 (rsub c (dot_avec (np_nth (nl_coo nl) j) (nl_avec nl)))) cs"
    and "d_min = sqrt (fold min (tl dsq) (hd dsq))"
    and "kept = (if d_min + dr < d_min_min then ([], [], []) else (nbl, dists, Tvecs))"
    and "dmm = min d_min d_min_min"
    and "sel = filter (\<lambda>(d, T). d \<le> (dmm + dr) ^ 2) (zip dsq (nl_T_latt nl))"
  shows "nearest_scan nl dr cs (j # js) (nbl, dists, Tvecs, d_min_min) =
     (case kept of (nbl1, dists1, Tvecs1) \<Rightarrow>
        if d_min > dmm + dr then nearest_scan nl dr cs js (nbl1, dists1, Tvecs1, dmm)
        else nearest_scan nl dr cs js
               (nbl1 @ replicate (length sel) j, dists1 @ map (\<lambda>(d, T). sqrt d) sel,
                Tvecs1 @ map snd sel, dmm))"
  by (simp only: assms nearest_scan.simps Let_def)

text \<open>
  Claim C6. For site 0 of the three-site cell and \<open>dr = 4\<close> the nearest other
  site is at distance 13, so exactly the pairs up to distance 17 are to be
  returned. The scan meets site 1 first (distances 14 and 18, both within 4 of
  the running minimum 14), then site 2 at distance 13, which lowers the
  minimum without emptying the lists: the pair at distance 18 stays in the
  result.
\<close>

theorem get_nearest_neighbors_keeps_far_pair:
  "get_nearest_neighbors cell3 0 4 =
     Inr ([1, 1, 2], [14, 18, 13], [(0, 0, 0), (- 1, 0, 0), (- 1, 0, 0)]) \<and>
   nearest_scan cell3 4 (coo_i_T cell3 0) [2, 1] ([], [], [], 96) =
     ([2, 1], [13, 14], [(- 1, 0, 0), (0, 0, 0)], 13)"
proof -
  define CT where "CT = coo_i_T cell3 0"
  define D1 where
    "D1 = map (\<lambda>c. norm2 (rsub c (dot_avec (np_nth (nl_coo cell3) 1) (nl_avec cell3)))) CT"
  define D2 where
    "D2 = map (\<lambda>c. norm2 (rsub c (dot_avec (np_nth (nl_coo cell3) 2) (nl_avec cell3)))) CT"
  have m1: "fold min (tl D1) (hd D1) = 196" unfolding D1_def CT_def by code_simp
  have m2: "fold min (tl D2) (hd D2) = 169" unfolding D2_def CT_def by code_simp
  have sel1: "[(196, (0, 0, 0)), (324, (- 1, 0, 0))]
      = filter (\<lambda>(d, T). d \<le> (14 + 4) ^ 2) (zip D1 (nl_T_latt cell3))"
    unfolding D1_def CT_def by code_simp
  have sel1': "[(196, (0, 0, 0))]
      = filter (\<lambda>(d, T). d \<le> (13 + 4) ^ 2) (zip D1 (nl_T_latt cell3))"
    unfolding D1_def CT_def by code_simp
  have sel2: "[(169, (- 1, 0, 0))]
      = filter (\<lambda>(d, T). d \<le> (13 + 4) ^ 2) (zip D2 (nl_T_latt cell3))"
    unfolding D2_def CT_def by code_simp
  have n0: "norm2 (dot_avec (1, 1, 1) (nl_avec cell3)) = 9216" by code_simp
  have d1: "(14::real) = sqrt (fold min (tl D1) (hd D1))" by (simp add: m1 sqrt_vals)
  have d2: "(13::real) = sqrt (fold min (tl D2) (hd D2))" by (simp add: m2 sqrt_vals)
  have k0: "(([], [], []) :: int list \<times> real list \<times> ivec3 list)
      = (if (14::real) + 4 < 96 then ([], [], []) else ([], [], []))" by simp
  have k0': "(([], [], []) :: int list \<times> real list \<times> ivec3 list)
      = (if (13::real) + 4 < 96 then ([], [], []) else ([], [], []))" by simp
  have k1: "([1, 1], [14, 18], [(0, 0, 0), (- 1, 0, 0)])
      = (if (13::real) + 4 < 14 then ([], [], [])
         else ([1, 1] :: int list, [14, 18] :: real list, [(0, 0, 0), (- 1, 0, 0)] :: ivec3 list))"
    by simp
  have k2: "([2], [13], [(- 1, 0, 0)])
      = (if (14::real) + 4 < 13 then ([], [], [])
         else ([2] :: int list, [13] :: real list, [(- 1, 0, 0)] :: ivec3 list))"
    by simp
  have a1: "nearest_scan cell3 4 CT [1, 2] ([], [], [], 96)
      = nearest_scan cell3 4 CT [2] ([1, 1], [14, 18], [(0, 0, 0), (- 1, 0, 0)], 14)"
    using nearest_scan_Cons[OF D1_def d1 k0 _ sel1, where js = "[2]"]
    by (simp add: sqrt_vals del: nearest_scan.simps)
  have "nearest_scan cell3 4 CT [2] ([1, 1], [14, 18], [(0, 0, 0), (- 1, 0, 0)], 14)
      = nearest_scan cell3 4 CT [] ([1, 1, 2], [14, 18, 13], [(0, 0, 0), (- 1, 0, 0), (- 1, 0, 0)], 13)"
    using nearest_scan_Cons[OF D2_def d2 k1 _ sel2, where js = "[]"]
    by (simp add: sqrt_vals del: nearest_scan.simps)
  then have a2: "nearest_scan cell3 4 CT [2] ([1, 1], [14, 18], [(0, 0, 0), (- 1, 0, 0)], 14)
      = ([1, 1, 2], [14, 18, 13], [(0, 0, 0), (- 1, 0, 0), (- 1, 0, 0)], 13)"
    by (simp only: nearest_scan.simps(1))
  have b1: "nearest_scan cell3 4 CT [2, 1] ([], [], [], 96)
      = nearest_scan cell3 4 CT [1] ([2], [13], [(- 1, 0, 0)], 13)"
    using nearest_scan_Cons[OF D2_def d2 k0' _ sel2, where js = "[1]"]
    by (simp add: sqrt_vals del: nearest_scan.simps)
  have "nearest_scan cell3 4 CT [1] ([2], [13], [(- 1, 0, 0)], 13)
      = nearest_scan cell3 4 CT [] ([2, 1], [13, 14], [(- 1, 0, 0), (0, 0, 0)], 13)"
    using nearest_scan_Cons[OF D1_def d1 k2 _ sel1', where js = "[]"]
    by (simp add: sqrt_vals del: nearest_scan.simps)
  then have b2: "nearest_scan cell3 4 CT [1] ([2], [13], [(- 1, 0, 0)], 13)
      = ([2, 1], [13, 14], [(- 1, 0, 0), (0, 0, 0)], 13)"
    by (simp only: nearest_scan.simps(1))
  have "get_nearest_neighbors cell3 0 4 =
     Inr ([1, 1, 2], [14, 18, 13], [(0, 0, 0), (- 1, 0, 0), (- 1, 0, 0)])"
    unfolding get_nearest_neighbors_def cell3_possible CT_def[symmetric]
    by (simp add: n0 sqrt_vals a1 a2 del: nearest_scan.simps)
  moreover have "nearest_scan cell3 4 CT [2, 1] ([], [], [], 96) =
     ([2, 1], [13, 14], [(- 1, 0, 0), (0, 0, 0)], 13)"
    by (simp only: b1 b2)
  ultimately show ?thesis unfolding CT_def by simp
qed

subsection \<open>The bond flags\<close>

text \<open>
  Claim C2. On the periodic 2 x 2 grid every site lists each neighbour twice:
  \<open>__init__\<close> gives it two bond flags (one per distinct neighbour), while
  \<open>_merge_clusters\<close> reads the flag at the position of the neighbour in the
  list, which is 2 for the second neighbour. Occupying sites 1 and 3 ends in
  \<open>IndexError\<close>.
\<close>

theorem bonds_index_error_on_repeated_neighbors:
  "nn grid22 ! 1 = [0, 0, 3, 3] \<and> length (bonds (start grid22 None) ! 1) = 2 \<and>
   index_py (nn grid22 ! 1) 3 = Some 2 \<and>
   run grid22 [(Some 1, 0), (Some 3, 0)] (start grid22 None) = Inl IndexError"
  by code_simp

subsection \<open>The binomial convolution\<close>

lemma np_sum_Some: "np_sum (map Some xs) = Some (sum_list xs)"
  by (induction xs) simp_all

lemma binomial_convolution_const:
  assumes "0 \<le> p" "p \<le> 1"
  shows "binomial_convolution N p (replicate N 1)
    = Some (\<Sum>n = 1..N. of_nat (N choose n) * p ^ n * (1 - p) ^ (N - n))"
proof -
  let ?f = "\<lambda>n. of_nat (N choose n) * p ^ n * (1 - p) ^ (N - n) :: real"
  have "map2 (\<lambda>b x. map_option (\<lambda>v. v * x) b) (map (\<lambda>n. binom_pmf n N p) [1 ..< N + 1])
          (replicate N (1::real)) = map Some (map ?f [1 ..< N + 1])"
    using assms by (intro nth_equalityI) (auto simp: binom_pmf_def simp del: upt_Suc)
  then have "binomial_convolution N p (replicate N 1) = Some (sum_list (map ?f [1 ..< N + 1]))"
    unfolding binomial_convolution_def by (simp only: np_sum_Some)
  also have "sum_list (map ?f [1 ..< N + 1]) = (\<Sum>n = 1..N. ?f n)"
    by (simp add: interv_sum_list_conv_sum_set_nat atLeastLessThanSuc_atLeastAtMost del: upt_Suc)
  finally show ?thesis .
qed

lemma binomial_total:
  "(\<Sum>n = 0..N. of_nat (N choose n) * p ^ n * (1 - p) ^ (N - n)) = (1::real)"
proof -
  have "(p + (1 - p)) ^ N = (\<Sum>n\<le>N. of_nat (N choose n) * p ^ n * (1 - p) ^ (N - n))"
    by (rule binomial_ring)
  then show ?thesis by (simp add: atMost_atLeast0)
qed

lemma binomial_convolution_ones:
  assumes "0 \<le> p" "p \<le> 1"
  shows "binomial_convolution N p (replicate N 1) = Some (1 - (1 - p) ^ N)"
proof -
  let ?f = "\<lambda>n. of_nat (N choose n) * p ^ n * (1 - p) ^ (N - n) :: real"
  have "(\<Sum>n = 0..N. ?f n) = ?f 0 + (\<Sum>n = 1..N. ?f n)"
    by (simp add: sum.atLeast_Suc_atMost)
  then show ?thesis
    using binomial_total[of N p] by (simp add: binomial_convolution_const[OF assms])
qed

text \<open>
  Claim C8, as stated, fails: for one site and \<open>p = 1/2\<close> the sum over the
  constant sequence 1 has the value \<open>1/2\<close>; for ten sites and \<open>p = 1/2\<close> it has
  the value \<open>1023/1024\<close>, which is further from 1 than the \<open>1 / 10^10\<close> that
  rounding could account for.
\<close>

theorem binomial_convolution_ones_counterexample:
  "binomial_convolution 1 (1 / 2) (replicate 1 1) = Some (1 / 2) \<and>
   binomial_convolution 10 (1 / 2) (replicate 10 1) = Some (1023 / 1024) \<and>
   \<bar>1023 / 1024 - 1\<bar> > (1 / 10 ^ 10 :: real)"
  using binomial_convolution_ones[of "1 / 2" 1] binomial_convolution_ones[of "1 / 2" 10]
  by (simp add: power_divide)

text \<open>
  Claim C8, amended. For \<open>N \<ge> 1\<close> and \<open>0 < p < 1\<close> the sum over \<open>n = 1..N\<close> of the
  binomial probabilities has the exact value \<open>1 - (1 - p)^N\<close>, which lies
  strictly between 0 and 1: the sum leaves out the term \<open>(1 - p)^N\<close> of the
  occupation count 0.
\<close>

theorem binomial_convolution_ones_amended:
  assumes "1 \<le> N" "0 < p" "p < 1"
  shows "binomial_convolution N p (replicate N 1) = Some (1 - (1 - p) ^ N) \<and>
         0 < 1 - (1 - p) ^ N \<and> 1 - (1 - p) ^ N < 1"
proof -
  from assms have a: "binomial_convolution N p (replicate N 1) = Some (1 - (1 - p) ^ N)"
    by (intro binomial_convolution_ones) simp_all
  from assms have q: "0 < 1 - p" "1 - p < 1" by simp_all
  then have "0 < (1 - p) ^ N" by simp
  moreover from q assms(1) have "(1 - p) ^ N < 1 ^ N" by (intro power_strict_mono) simp_all
  then have "(1 - p) ^ N < 1" by simp
  ultimately show ?thesis using a by simp
qed

theorem binomial_convolution_ones_amended_witness:
  "binomial_convolution 2 (1 / 4) (replicate 2 1) = Some (7 / 16) \<and> (0::real) < 7 / 16 \<and> (7 / 16 :: real) < 1"
  using binomial_convolution_ones_amended[of 2 "1 / 4"] by (simp add: power_divide)

end
